theory Spec2Isabelle
  imports Main "HOL-Library.Word" "HOL-Library.Sublist"
begin

section \<open>The log monitor of \<^verbatim>\<open>src/share/log_monitor.hpp\<close>\<close>

text \<open>
  The class \<^verbatim>\<open>log_monitor\<close> scans a set of log files once, when it is constructed,
  into a bounded buffer of lines sorted by a numeric key (\<^verbatim>\<open>initial_lines_\<close>), and then
  polls the live files from a timer, handing every line it reads to a callback and
  remembering in \<^verbatim>\<open>read_position_\<close> where it stopped.

  The embedding is a state-passing one. The members of the class are the fields of a
  record, every member function takes the record and returns it updated, the file system
  is a map from paths to file contents, and the calls of the callback are appended to a
  trace kept in the record.
\<close>

subsection \<open>The part of \<^verbatim>\<open>std::ifstream\<close> the class uses\<close>

text \<open>
  A stream carries the bytes of the file it was opened on, the get position and the two
  state bits the code can observe (\<^verbatim>\<open>badbit\<close> is never set on a regular file read).
  The operations follow the C++ standard library:
  \<^item> the constructor sets \<^verbatim>\<open>failbit\<close> when the file cannot be opened;
  \<^item> every input function first builds a \<^verbatim>\<open>sentry\<close>, which sets \<^verbatim>\<open>failbit\<close> and
    refuses when the stream is not \<^verbatim>\<open>good()\<close>;
  \<^item> \<^verbatim>\<open>std::getline\<close> extracts up to and including the next newline, or up to the end of
    the file where it sets \<^verbatim>\<open>eofbit\<close>, and sets \<^verbatim>\<open>failbit\<close> when it extracted nothing;
  \<^item> \<^verbatim>\<open>tellg\<close> returns \<^verbatim>\<open>pos_type(-1)\<close> when the sentry refuses, the get position otherwise;
  \<^item> \<^verbatim>\<open>seekg\<close> clears \<^verbatim>\<open>eofbit\<close>, builds a sentry, and sets \<^verbatim>\<open>failbit\<close> when the
    buffer cannot seek to the position (a negative one).
  A \<^verbatim>\<open>std::streampos\<close> is read through its offset, a signed integer; a
  default-constructed one is \<open>0\<close>.
\<close>

type_synonym streampos = int

type_synonym file_system = "string \<rightharpoonup> string"

record ifstream =
  buf :: string
  gpos :: nat
  eofbit :: bool
  failbit :: bool

definition newline :: char where
  "newline = CHR 0x0A"

definition stream_good :: "ifstream \<Rightarrow> bool" where
  "stream_good s = (\<not> eofbit s \<and> \<not> failbit s)"

definition stream_fail :: "ifstream \<Rightarrow> bool" where
  "stream_fail s = failbit s"

definition open_ifstream :: "file_system \<Rightarrow> string \<Rightarrow> ifstream" where
  "open_ifstream fs file_path =
     (case fs file_path of
        None \<Rightarrow> \<lparr>buf = [], gpos = 0, eofbit = False, failbit = True\<rparr>
      | Some bytes \<Rightarrow> \<lparr>buf = bytes, gpos = 0, eofbit = False, failbit = False\<rparr>)"

definition sentry :: "ifstream \<Rightarrow> ifstream \<times> bool" where
  "sentry s = (if stream_good s then (s, True) else (s\<lparr>failbit := True\<rparr>, False))"

definition getline :: "ifstream \<Rightarrow> string \<Rightarrow> ifstream \<times> string" where
  "getline s line =
     (case sentry s of (s1, ok) \<Rightarrow>
        if \<not> ok then (s1, line)
        else
          (case drop (gpos s1) (buf s1) of rest \<Rightarrow>
           case takeWhile (\<lambda>c. c \<noteq> newline) rest of str \<Rightarrow>
             if length str < length rest
             then (s1\<lparr>gpos := gpos s1 + length str + 1\<rparr>, str)
             else (s1\<lparr>gpos := gpos s1 + length str, eofbit := True,
                      failbit := (str = [])\<rparr>, str)))"

definition tellg :: "ifstream \<Rightarrow> ifstream \<times> streampos" where
  "tellg s =
     (case sentry s of (s1, ok) \<Rightarrow>
        if \<not> ok then (s1, - 1) else (s1, int (gpos s1)))"

definition seekg :: "ifstream \<Rightarrow> streampos \<Rightarrow> ifstream" where
  "seekg s pos =
     (case sentry (s\<lparr>eofbit := False\<rparr>) of (s1, ok) \<Rightarrow>
        if \<not> ok then s1
        else if pos < 0 then s1\<lparr>failbit := True\<rparr>
        else s1\<lparr>gpos := nat pos\<rparr>)"

subsection \<open>The collaborators that are not part of the class\<close>

text \<open>
  \<^verbatim>\<open>spdlog_utility::get_sort_key\<close> is a parameter of the model: any function from a line
  to an optional 64-bit key.
\<close>

type_synonym sort_key = "64 word"

type_synonym get_sort_key = "string \<Rightarrow> sort_key option"

text \<open>
  Modelled from the spec: \<^verbatim>\<open>filesystem::file_size\<close> (declared in \<^verbatim>\<open>filesystem.hpp\<close>)
  is the FileSizeProbe, which "given a path, optionally returns its current byte length
  (absent if the file does not exist)".
\<close>

definition file_size :: "file_system \<Rightarrow> string \<Rightarrow> nat option" where
  "file_size fs path = (case fs path of None \<Rightarrow> None | Some bytes \<Rightarrow> Some (length bytes))"

subsection \<open>The state of a monitor\<close>

text \<open>
  \<open>callback_present\<close> says whether \<^verbatim>\<open>callback_\<close> holds a target (the code tests
  \<^verbatim>\<open>if (callback_)\<close>); \<open>delivered\<close> is the trace of the lines it was called with.
\<close>

type_synonym entry = "sort_key \<times> string"

record log_monitor =
  callback_present :: bool
  initial_lines :: "entry list"
  read_position :: "string \<rightharpoonup> streampos"
  files :: "string list"
  delivered :: "string list"

definition get_initial_lines :: "log_monitor \<Rightarrow> entry list" where
  "get_initial_lines m = initial_lines m"

subsection \<open>\<^verbatim>\<open>add_initial_line\<close>\<close>

text \<open>
  The \<^verbatim>\<open>for\<close> loop of \<^verbatim>\<open>add_initial_line\<close>: walk the buffer and insert before the first
  entry whose key is greater; \<open>None\<close> when the loop runs off the end.
\<close>

fun insert_before_greater :: "sort_key \<Rightarrow> string \<Rightarrow> entry list \<Rightarrow> entry list option" where
  "insert_before_greater k line [] = None"
| "insert_before_greater k line (e # es) =
     (if k < fst e then Some ((k, line) # e # es)
      else (case insert_before_greater k line es of
              None \<Rightarrow> None
            | Some es' \<Rightarrow> Some (e # es')))"

definition add_initial_line :: "get_sort_key \<Rightarrow> string \<Rightarrow> entry list \<Rightarrow> bool \<times> entry list" where
  "add_initial_line gsk line il =
     (case gsk line of
        None \<Rightarrow> (False, il)
      | Some k \<Rightarrow>
          if il = [] then (True, il @ [(k, line)])
          else if k < fst (hd il) then (False, il)
          else if fst (last il) < k then (True, il @ [(k, line)])
          else (case insert_before_greater k line il of
                  Some il' \<Rightarrow> (True, il')
                | None \<Rightarrow> (True, il @ [(k, line)])))"

subsection \<open>\<^verbatim>\<open>add_initial_lines\<close>\<close>

definition max_initial_lines :: nat where
  "max_initial_lines = 250"

function evict :: "entry list \<Rightarrow> entry list" where
  "evict il = (if length il > max_initial_lines then evict (tl il) else il)"
  by pat_completeness auto
termination
  by (relation "measure length") auto

text \<open>The body of the \<^verbatim>\<open>while\<close> loop of \<^verbatim>\<open>add_initial_lines\<close>, as far as the buffer goes.\<close>

definition scan_line :: "get_sort_key \<Rightarrow> entry list \<Rightarrow> string \<Rightarrow> entry list" where
  "scan_line gsk il line =
     (case add_initial_line gsk line il of (added, il') \<Rightarrow>
        if added then evict il' else il')"

function add_initial_lines_loop ::
  "get_sort_key \<Rightarrow> ifstream \<Rightarrow> string \<Rightarrow> streampos \<Rightarrow> entry list \<Rightarrow> streampos \<times> entry list" where
  "add_initial_lines_loop gsk s line rp il =
     (if stream_fail (fst (getline s line)) then (rp, il)
      else add_initial_lines_loop gsk
             (fst (tellg (fst (getline s line))))
             (snd (getline s line))
             (snd (tellg (fst (getline s line))))
             (scan_line gsk il (snd (getline s line))))"
  by pat_completeness auto
termination
  by (relation "measure (\<lambda>(gsk, s, line, rp, il).
        if stream_good s then Suc (length (buf s) - gpos s) else 0)")
     (auto simp: getline_def tellg_def sentry_def stream_good_def stream_fail_def
           split: if_splits)

definition add_initial_lines :: "get_sort_key \<Rightarrow> file_system \<Rightarrow> string \<Rightarrow> log_monitor \<Rightarrow> log_monitor" where
  "add_initial_lines gsk fs file_path m =
     (case add_initial_lines_loop gsk (open_ifstream fs file_path) [] 0 (initial_lines m) of
        (rp, il) \<Rightarrow>
          m\<lparr>initial_lines := il, read_position := (read_position m)(file_path \<mapsto> rp)\<rparr>)"

subsection \<open>\<^verbatim>\<open>call_callback\<close>\<close>

text \<open>The seek phase: the stream \<^verbatim>\<open>call_callback\<close> reads from, once the file is open.\<close>

definition call_callback_seek :: "file_system \<Rightarrow> string \<Rightarrow> log_monitor \<Rightarrow> ifstream" where
  "call_callback_seek fs file_path m =
     (case read_position m file_path of
        None \<Rightarrow> open_ifstream fs file_path
      | Some pos \<Rightarrow>
          (case file_size fs file_path of
             None \<Rightarrow> open_ifstream fs file_path
           | Some sz \<Rightarrow>
               if pos < int sz then seekg (open_ifstream fs file_path) pos
               else open_ifstream fs file_path))"

function call_callback_loop ::
  "bool \<Rightarrow> ifstream \<Rightarrow> string \<Rightarrow> streampos \<Rightarrow> string list \<Rightarrow> streampos \<times> string list" where
  "call_callback_loop cb s line rp out =
     (if stream_fail (fst (getline s line)) then (rp, out)
      else call_callback_loop cb
             (fst (tellg (fst (getline s line))))
             (snd (getline s line))
             (snd (tellg (fst (getline s line))))
             (if cb then out @ [snd (getline s line)] else out))"
  by pat_completeness auto
termination
  by (relation "measure (\<lambda>(cb, s, line, rp, out).
        if stream_good s then Suc (length (buf s) - gpos s) else 0)")
     (auto simp: getline_def tellg_def sentry_def stream_good_def stream_fail_def
           split: if_splits)

definition call_callback :: "file_system \<Rightarrow> string \<Rightarrow> log_monitor \<Rightarrow> log_monitor" where
  "call_callback fs file_path m =
     (if stream_fail (open_ifstream fs file_path) then m
      else
        (case call_callback_loop (callback_present m) (call_callback_seek fs file_path m)
                [] 0 (delivered m) of
           (rp, out) \<Rightarrow>
             m\<lparr>read_position := (read_position m)(file_path \<mapsto> rp), delivered := out\<rparr>))"

subsection \<open>The constructor and the timer's event handler\<close>

definition log_monitor_target :: "get_sort_key \<Rightarrow> file_system \<Rightarrow> string \<Rightarrow> log_monitor \<Rightarrow> log_monitor" where
  "log_monitor_target gsk fs target m =
     (case add_initial_lines gsk fs (target @ ''.txt'')
             (add_initial_lines gsk fs (target @ ''.1.txt'') m) of m' \<Rightarrow>
        m'\<lparr>files := files m' @ [target @ ''.txt'']\<rparr>)"

definition log_monitor_new :: "get_sort_key \<Rightarrow> file_system \<Rightarrow> string list \<Rightarrow> bool \<Rightarrow> log_monitor" where
  "log_monitor_new gsk fs targets cb =
     fold (log_monitor_target gsk fs) targets
       \<lparr>callback_present = cb, initial_lines = [], read_position = Map.empty,
        files = [], delivered = []\<rparr>"

text \<open>The body of the handler's loop over \<^verbatim>\<open>files_\<close>, and the handler.\<close>

definition timer_event_file :: "file_system \<Rightarrow> string \<Rightarrow> log_monitor \<Rightarrow> log_monitor" where
  "timer_event_file fs file m =
     (case file_size fs file of
        None \<Rightarrow> m
      | Some sz \<Rightarrow>
          (case read_position m file of
             None \<Rightarrow> m
           | Some pos \<Rightarrow> if pos \<noteq> int sz then call_callback fs file m else m))"

definition timer_event :: "file_system \<Rightarrow> log_monitor \<Rightarrow> log_monitor" where
  "timer_event fs m = fold (timer_event_file fs) (files m) m"

text \<open>A run of ticks, each seeing the file system as it is at that moment.\<close>

fun timer_events :: "file_system list \<Rightarrow> log_monitor \<Rightarrow> log_monitor" where
  "timer_events [] m = m"
| "timer_events (fs # fss) m = timer_events fss (timer_event fs m)"

text \<open>A file made of complete lines: every line followed by its terminator.\<close>

definition terminated :: "string list \<Rightarrow> string" where
  "terminated ls = concat (map (\<lambda>l. l @ [newline]) ls)"

subsection \<open>Inputs for the examples\<close>

text \<open>
  Two key extractors (one that finds no key in any line, one that gives every line the
  same key), two file systems (an empty one, and one that holds a single file), the
  monitor constructed on the target \<open>app\<close> before any log file exists, and two
  states of the file \<open>app.txt\<close> that end in an unterminated fragment.
\<close>

definition no_key :: get_sort_key where
  "no_key line = None"

definition fixed_key :: "sort_key \<Rightarrow> get_sort_key" where
  "fixed_key k line = Some k"

definition no_files :: file_system where
  "no_files path = None"

definition one_file :: "string \<Rightarrow> string \<Rightarrow> file_system" where
  "one_file path bytes q = (if q = path then Some bytes else None)"

definition app_monitor :: log_monitor where
  "app_monitor = log_monitor_new no_key no_files [''app''] True"

definition fragment_file :: file_system where
  "fragment_file = one_file ''app.txt'' (terminated [''A'', ''B''] @ ''C'')"

definition keyless_fragment_file :: file_system where
  "keyless_fragment_file = one_file ''app.txt'' (terminated [''x''] @ ''frag'')"

section \<open>Properties\<close>

declare evict.simps [simp del]

lemma evict_drop: "evict il = drop (length il - max_initial_lines) il"
proof (induction il rule: evict.induct)
  case (1 il)
  show ?case
  proof (cases "length il > max_initial_lines")
    case True
    then have "il \<noteq> []" by auto
    then obtain e es where il: "il = e # es" by (cases il) auto
    with True 1 show ?thesis
      by (subst evict.simps) (simp add: Suc_diff_le)
  next
    case False
    then show ?thesis by (subst evict.simps) simp
  qed
qed

lemma length_evict: "length (evict il) \<le> max_initial_lines"
  by (simp add: evict_drop)

lemma sorted_evict: "sorted (map fst il) \<Longrightarrow> sorted (map fst (evict il))"
  by (simp add: evict_drop sorted_wrt_drop flip: drop_map)

lemma insert_before_greater_None:
  "insert_before_greater k line il = None \<longleftrightarrow> (\<forall>e\<in>set il. \<not> k < fst e)"
  by (induction il) (auto split: option.splits)

lemma insert_before_greater_Some:
  "insert_before_greater k line il = Some il' \<Longrightarrow>
   il' = takeWhile (\<lambda>e. fst e \<le> k) il @ (k, line) # dropWhile (\<lambda>e. fst e \<le> k) il"
  by (induction il arbitrary: il') (auto split: option.splits if_splits)

lemma takeWhile_all_le: "\<forall>e\<in>set il. fst e \<le> (k::sort_key) \<Longrightarrow> takeWhile (\<lambda>e. fst e \<le> k) il = il"
  by simp

lemma sorted_keys_le_last:
  "sorted (map fst il) \<Longrightarrow> e \<in> set il \<Longrightarrow> fst e \<le> fst (last il)"
  by (induction il) auto

lemma add_initial_line_placed:
  assumes "sorted (map fst il)" and "gsk line = Some k"
    and "il = [] \<or> \<not> k < fst (hd il)"
  shows "add_initial_line gsk line il =
         (True, takeWhile (\<lambda>e. fst e \<le> k) il @ (k, line) # dropWhile (\<lambda>e. fst e \<le> k) il)"
proof (cases "il = []")
  case True
  with assms show ?thesis by (simp add: add_initial_line_def)
next
  case False
  with assms have nlt: "\<not> k < fst (hd il)" by simp
  show ?thesis
  proof (cases "fst (last il) < k")
    case True
    have "\<forall>e\<in>set il. fst e \<le> fst (last il)"
      using assms(1) False by (simp add: sorted_keys_le_last)
    with True have "\<forall>e\<in>set il. fst e \<le> k" by fastforce
    then have tw: "takeWhile (\<lambda>e. fst e \<le> k) il = il" "dropWhile (\<lambda>e. fst e \<le> k) il = []"
      by simp_all
    from True False nlt assms(2) show ?thesis by (simp add: add_initial_line_def tw)
  next
    case nlast: False
    show ?thesis
    proof (cases "insert_before_greater k line il")
      case None
      then have "\<forall>e\<in>set il. fst e \<le> k"
        by (auto simp: insert_before_greater_None)
      then have tw: "takeWhile (\<lambda>e. fst e \<le> k) il = il" "dropWhile (\<lambda>e. fst e \<le> k) il = []"
        by simp_all
      from None nlast False nlt assms(2) show ?thesis by (simp add: add_initial_line_def tw)
    next
      case (Some il')
      with nlast False nlt assms(2) insert_before_greater_Some[OF Some] show ?thesis
        by (simp add: add_initial_line_def)
    qed
  qed
qed


lemma dropWhile_keys_greater:
  "sorted (map fst il) \<Longrightarrow> e \<in> set (dropWhile (\<lambda>e. fst e \<le> k) il) \<Longrightarrow> k < fst e"
  by (induction il) (auto split: if_splits)

lemma sorted_placed:
  "sorted (map fst il) \<Longrightarrow>
   sorted (map fst (takeWhile (\<lambda>e. fst e \<le> k) il @ (k, line) # dropWhile (\<lambda>e. fst e \<le> k) il))"
  by (induction il) (auto split: if_splits dest: set_takeWhileD set_dropWhileD)

lemma add_initial_line_rejects:
  "il \<noteq> [] \<Longrightarrow> gsk line = Some k \<Longrightarrow> k < fst (hd il) \<Longrightarrow> add_initial_line gsk line il = (False, il)"
  by (simp add: add_initial_line_def)

lemma add_initial_line_no_key:
  "gsk line = None \<Longrightarrow> add_initial_line gsk line il = (False, il)"
  by (simp add: add_initial_line_def)

lemma scan_line_cases:
  assumes "sorted (map fst il)"
  shows "scan_line gsk il line =
    (case gsk line of None \<Rightarrow> il
     | Some k \<Rightarrow> if il \<noteq> [] \<and> k < fst (hd il) then il
         else evict (takeWhile (\<lambda>e. fst e \<le> k) il @ (k, line) # dropWhile (\<lambda>e. fst e \<le> k) il))"
proof (cases "gsk line")
  case None
  then show ?thesis by (simp add: scan_line_def add_initial_line_no_key)
next
  case (Some k)
  show ?thesis
  proof (cases "il \<noteq> [] \<and> k < fst (hd il)")
    case True
    with Some show ?thesis by (simp add: scan_line_def add_initial_line_rejects)
  next
    case False
    then have "il = [] \<or> \<not> k < fst (hd il)" by blast
    with assms Some have "add_initial_line gsk line il =
         (True, takeWhile (\<lambda>e. fst e \<le> k) il @ (k, line) # dropWhile (\<lambda>e. fst e \<le> k) il)"
      by (rule add_initial_line_placed)
    with Some False show ?thesis
      by (auto simp: scan_line_def)
  qed
qed

lemma sorted_scan_line: "sorted (map fst il) \<Longrightarrow> sorted (map fst (scan_line gsk il line))"
  by (auto simp: scan_line_cases split: option.splits intro!: sorted_evict sorted_placed)

lemma length_scan_line:
  "sorted (map fst il) \<Longrightarrow> length il \<le> max_initial_lines \<Longrightarrow> length (scan_line gsk il line) \<le> max_initial_lines"
  by (simp add: scan_line_cases length_evict split: option.splits)

lemma scan_lines_invariant:
  "sorted (map fst il) \<Longrightarrow> length il \<le> max_initial_lines \<Longrightarrow>
   sorted (map fst (foldl (scan_line gsk) il ls)) \<and> length (foldl (scan_line gsk) il ls) \<le> max_initial_lines"
  by (induction ls arbitrary: il) (simp_all add: sorted_scan_line length_scan_line)


lemma filter_key_placed:
  assumes "sorted (map fst il)"
  shows "filter (\<lambda>e. fst e = k) (takeWhile (\<lambda>e. fst e \<le> k') il @ (k', line) # dropWhile (\<lambda>e. fst e \<le> k') il) =
         filter (\<lambda>e. fst e = k) il @ (if k' = k then [(k', line)] else [])"
proof (cases "k' = k")
  case True
  have "filter (\<lambda>e. fst e = k) (dropWhile (\<lambda>e. fst e \<le> k) il) = []"
    using dropWhile_keys_greater[OF assms, of _ k] by (auto simp: filter_empty_conv)
  moreover have "filter (\<lambda>e. fst e = k) il =
      filter (\<lambda>e. fst e = k) (takeWhile (\<lambda>e. fst e \<le> k) il) @
      filter (\<lambda>e. fst e = k) (dropWhile (\<lambda>e. fst e \<le> k) il)"
    by (metis filter_append takeWhile_dropWhile_id)
  ultimately show ?thesis using True by simp
next
  case False
  have "filter (\<lambda>e. fst e = k) il =
      filter (\<lambda>e. fst e = k) (takeWhile (\<lambda>e. fst e \<le> k') il) @
      filter (\<lambda>e. fst e = k) (dropWhile (\<lambda>e. fst e \<le> k') il)"
    by (metis filter_append takeWhile_dropWhile_id)
  with False show ?thesis by simp
qed

lemma subseq_filter_evict:
  "subseq (filter P (evict il)) (filter P il)"
proof -
  have "suffix (evict il) il" by (simp add: evict_drop suffix_drop)
  then have "subseq (evict il) il" by (rule suffix_imp_subseq)
  then show ?thesis by simp
qed

lemma scan_line_stable:
  assumes "sorted (map fst il)"
  shows "subseq (filter (\<lambda>e. fst e = k) (scan_line gsk il line))
                (filter (\<lambda>e. fst e = k) il @ (if gsk line = Some k then [(k, line)] else []))"
proof (cases "gsk line")
  case None
  then show ?thesis by (simp add: scan_line_cases[OF assms])
next
  case (Some k')
  show ?thesis
  proof (cases "il \<noteq> [] \<and> k' < fst (hd il)")
    case True
    with Some show ?thesis
      by (auto simp: scan_line_cases[OF assms] intro: subseq_rev_drop_many)
  next
    case False
    let ?placed = "takeWhile (\<lambda>e. fst e \<le> k') il @ (k', line) # dropWhile (\<lambda>e. fst e \<le> k') il"
    from False Some have "scan_line gsk il line = evict ?placed"
      by (auto simp: scan_line_cases[OF assms])
    moreover have "subseq (filter (\<lambda>e. fst e = k) (evict ?placed)) (filter (\<lambda>e. fst e = k) ?placed)"
      by (rule subseq_filter_evict)
    moreover have "filter (\<lambda>e. fst e = k) ?placed =
        filter (\<lambda>e. fst e = k) il @ (if gsk line = Some k then [(k, line)] else [])"
      using filter_key_placed[OF assms, of k k' line] Some by auto
    ultimately show ?thesis by simp
  qed
qed

lemma scan_lines_stable:
  "sorted (map fst il) \<Longrightarrow>
   subseq (filter (\<lambda>e. fst e = k) (foldl (scan_line gsk) il ls))
          (filter (\<lambda>e. fst e = k) il @ map (Pair k) (filter (\<lambda>l. gsk l = Some k) ls))"
proof (induction ls arbitrary: il)
  case Nil
  then show ?case by simp
next
  case (Cons l ls)
  let ?F = "filter (\<lambda>e. fst e = k)"
  let ?M = "\<lambda>ls. map (Pair k) (filter (\<lambda>l. gsk l = Some k) ls)"
  have s: "sorted (map fst (scan_line gsk il l))"
    using Cons.prems by (rule sorted_scan_line)
  have "subseq (?F (foldl (scan_line gsk) (scan_line gsk il l) ls)) (?F (scan_line gsk il l) @ ?M ls)"
    using Cons.IH[OF s] .
  also have "subseq (?F (scan_line gsk il l) @ ?M ls)
                    ((?F il @ (if gsk l = Some k then [(k, l)] else [])) @ ?M ls)"
    using scan_line_stable[OF Cons.prems, of k gsk l]
    by (intro list_emb_append_mono) simp_all
  also have "(?F il @ (if gsk l = Some k then [(k, l)] else [])) @ ?M ls = ?F il @ ?M (l # ls)"
    by simp
  finally show ?case by simp
qed

declare add_initial_lines_loop.simps [simp del] call_callback_loop.simps [simp del]

lemma terminated_Nil [simp]: "terminated [] = []"
  by (simp add: terminated_def)

lemma terminated_Cons [simp]: "terminated (l # ls) = l @ newline # terminated ls"
  by (simp add: terminated_def)

lemma terminated_append [simp]: "terminated (xs @ ys) = terminated xs @ terminated ys"
  by (simp add: terminated_def)

lemma getline_line:
  assumes "stream_good s" and "drop (gpos s) (buf s) = l @ newline # rest"
    and "newline \<notin> set l"
  shows "getline s line = (s\<lparr>gpos := gpos s + length l + 1\<rparr>, l)"
proof -
  have tw: "takeWhile (\<lambda>c. c \<noteq> newline) (l @ newline # rest) = l"
    using assms(3) by (induction l) auto
  from assms(1,2) show ?thesis
    by (simp add: getline_def sentry_def tw)
qed

lemma getline_fragment:
  assumes "stream_good s" and "drop (gpos s) (buf s) = frag" and "frag \<noteq> []"
    and "newline \<notin> set frag"
  shows "getline s line = (s\<lparr>gpos := gpos s + length frag, eofbit := True, failbit := False\<rparr>, frag)"
proof -
  have tw: "takeWhile (\<lambda>c. c \<noteq> newline) frag = frag"
    using assms(4) by (induction frag) auto
  from assms(1,2,3) show ?thesis
    by (simp add: getline_def sentry_def tw)
qed

lemma getline_eof:
  "stream_good s \<Longrightarrow> drop (gpos s) (buf s) = [] \<Longrightarrow> stream_fail (fst (getline s line))"
  by (simp add: getline_def sentry_def stream_fail_def)

lemma getline_not_good:
  "\<not> stream_good s \<Longrightarrow> stream_fail (fst (getline s line))"
  by (simp add: getline_def sentry_def stream_fail_def)

lemma tellg_good: "stream_good s \<Longrightarrow> tellg s = (s, int (gpos s))"
  by (simp add: tellg_def sentry_def)

lemma tellg_not_good: "\<not> stream_good s \<Longrightarrow> tellg s = (s\<lparr>failbit := True\<rparr>, - 1)"
  by (simp add: tellg_def sentry_def)

lemma call_callback_loop_stop:
  "stream_fail (fst (getline s line)) \<Longrightarrow> call_callback_loop cb s line rp out = (rp, out)"
  by (subst call_callback_loop.simps) simp

lemma call_callback_loop_step:
  "\<not> stream_fail (fst (getline s line)) \<Longrightarrow>
   call_callback_loop cb s line rp out =
   call_callback_loop cb (fst (tellg (fst (getline s line)))) (snd (getline s line))
     (snd (tellg (fst (getline s line)))) (if cb then out @ [snd (getline s line)] else out)"
  by (subst call_callback_loop.simps) simp

lemma call_callback_loop_fragment:
  assumes "stream_good s" and "drop (gpos s) (buf s) = frag" and "frag \<noteq> []"
    and "newline \<notin> set frag"
  shows "call_callback_loop cb s line rp out = (- 1, if cb then out @ [frag] else out)"
proof -
  let ?s1 = "s\<lparr>gpos := gpos s + length frag, eofbit := True, failbit := False\<rparr>"
  have g: "getline s line = (?s1, frag)"
    using assms by (rule getline_fragment)
  have ng: "\<not> stream_good ?s1" by (simp add: stream_good_def)
  have nf: "\<not> stream_fail (fst (getline s line))" by (simp add: g stream_fail_def)
  have t: "tellg ?s1 = (?s1\<lparr>failbit := True\<rparr>, - 1)"
    using ng by (rule tellg_not_good)
  have "\<not> stream_good (?s1\<lparr>failbit := True\<rparr>)" by (simp add: stream_good_def)
  then have stop: "stream_fail (fst (getline (?s1\<lparr>failbit := True\<rparr>) frag))"
    by (rule getline_not_good)
  have "call_callback_loop cb s line rp out =
        call_callback_loop cb (?s1\<lparr>failbit := True\<rparr>) frag (- 1)
          (if cb then out @ [frag] else out)"
    by (simp only: call_callback_loop_step[OF nf] g t fst_conv snd_conv)
  also have "\<dots> = (- 1, if cb then out @ [frag] else out)"
    using stop by (rule call_callback_loop_stop)
  finally show ?thesis .
qed

lemma call_callback_loop_lines:
  assumes "stream_good s" and "buf s = pre @ terminated ls @ frag" and "gpos s = length pre"
    and "\<forall>l\<in>set ls. newline \<notin> set l" and "newline \<notin> set frag"
  shows "call_callback_loop cb s line rp out =
         (if frag \<noteq> [] then - 1
          else if ls = [] then rp
          else int (length pre + length (terminated ls)),
          if cb then out @ ls @ (if frag = [] then [] else [frag]) else out)"
  using assms
proof (induction ls arbitrary: s pre line rp out)
  case Nil
  then have d: "drop (gpos s) (buf s) = frag" by simp
  show ?case
  proof (cases "frag = []")
    case True
    with Nil d have "stream_fail (fst (getline s line))" by (simp add: getline_eof)
    then show ?thesis using True by (simp add: call_callback_loop_stop)
  next
    case False
    with call_callback_loop_fragment[OF Nil.prems(1) d False Nil.prems(5)] show ?thesis
      by simp
  qed
next
  case (Cons l ls)
  let ?s1 = "s\<lparr>gpos := gpos s + length l + 1\<rparr>"
  have d: "drop (gpos s) (buf s) = l @ newline # (terminated ls @ frag)"
    using Cons.prems by simp
  have nl: "newline \<notin> set l" using Cons.prems by simp
  have g: "getline s line = (?s1, l)"
    using Cons.prems(1) d nl by (rule getline_line)
  have good1: "stream_good ?s1" using Cons.prems(1) by (simp add: stream_good_def)
  have nf: "\<not> stream_fail (fst (getline s line))"
    using Cons.prems(1) by (simp add: g stream_fail_def stream_good_def)
  have t: "tellg ?s1 = (?s1, int (gpos ?s1))" using good1 by (rule tellg_good)
  have b1: "buf ?s1 = (pre @ l @ [newline]) @ terminated ls @ frag"
    using Cons.prems by simp
  have p1: "gpos ?s1 = length (pre @ l @ [newline])" using Cons.prems by simp
  have rest: "\<forall>l\<in>set ls. newline \<notin> set l" using Cons.prems by simp
  note IH = Cons.IH[OF good1 b1 p1 rest Cons.prems(5)]
  have "call_callback_loop cb s line rp out =
        call_callback_loop cb ?s1 l (int (gpos ?s1)) (if cb then out @ [l] else out)"
    by (simp only: call_callback_loop_step[OF nf] g t fst_conv snd_conv)
  also have "\<dots> = (if frag \<noteq> [] then - 1
          else if ls = [] then int (gpos ?s1)
          else int (length (pre @ l @ [newline]) + length (terminated ls)),
          if cb then (if cb then out @ [l] else out) @ ls @ (if frag = [] then [] else [frag])
          else (if cb then out @ [l] else out))"
    by (rule IH)
  finally show ?case by (simp add: Cons.prems(3))
qed

lemma add_initial_lines_loop_stop:
  "stream_fail (fst (getline s line)) \<Longrightarrow> add_initial_lines_loop gsk s line rp il = (rp, il)"
  by (subst add_initial_lines_loop.simps) simp

lemma add_initial_lines_loop_step:
  "\<not> stream_fail (fst (getline s line)) \<Longrightarrow>
   add_initial_lines_loop gsk s line rp il =
   add_initial_lines_loop gsk (fst (tellg (fst (getline s line)))) (snd (getline s line))
     (snd (tellg (fst (getline s line)))) (scan_line gsk il (snd (getline s line)))"
  by (subst add_initial_lines_loop.simps) simp

lemma add_initial_lines_loop_fragment:
  assumes "stream_good s" and "drop (gpos s) (buf s) = frag" and "frag \<noteq> []"
    and "newline \<notin> set frag"
  shows "add_initial_lines_loop gsk s line rp il = (- 1, scan_line gsk il frag)"
proof -
  let ?s1 = "s\<lparr>gpos := gpos s + length frag, eofbit := True, failbit := False\<rparr>"
  have g: "getline s line = (?s1, frag)"
    using assms by (rule getline_fragment)
  have ng: "\<not> stream_good ?s1" by (simp add: stream_good_def)
  have nf: "\<not> stream_fail (fst (getline s line))" by (simp add: g stream_fail_def)
  have t: "tellg ?s1 = (?s1\<lparr>failbit := True\<rparr>, - 1)"
    using ng by (rule tellg_not_good)
  have "\<not> stream_good (?s1\<lparr>failbit := True\<rparr>)" by (simp add: stream_good_def)
  then have stop: "stream_fail (fst (getline (?s1\<lparr>failbit := True\<rparr>) frag))"
    by (rule getline_not_good)
  have "add_initial_lines_loop gsk s line rp il =
        add_initial_lines_loop gsk (?s1\<lparr>failbit := True\<rparr>) frag (- 1) (scan_line gsk il frag)"
    by (simp only: add_initial_lines_loop_step[OF nf] g t fst_conv snd_conv)
  also have "\<dots> = (- 1, scan_line gsk il frag)"
    using stop by (rule add_initial_lines_loop_stop)
  finally show ?thesis .
qed

lemma add_initial_lines_loop_lines:
  assumes "stream_good s" and "buf s = pre @ terminated ls @ frag" and "gpos s = length pre"
    and "\<forall>l\<in>set ls. newline \<notin> set l" and "newline \<notin> set frag"
  shows "add_initial_lines_loop gsk s line rp il =
         (if frag \<noteq> [] then - 1
          else if ls = [] then rp
          else int (length pre + length (terminated ls)),
          foldl (scan_line gsk) il (ls @ (if frag = [] then [] else [frag])))"
  using assms
proof (induction ls arbitrary: s pre line rp il)
  case Nil
  then have d: "drop (gpos s) (buf s) = frag" by simp
  show ?case
  proof (cases "frag = []")
    case True
    with Nil d have "stream_fail (fst (getline s line))" by (simp add: getline_eof)
    then show ?thesis using True by (simp add: add_initial_lines_loop_stop)
  next
    case False
    with add_initial_lines_loop_fragment[OF Nil.prems(1) d False Nil.prems(5)] show ?thesis
      by simp
  qed
next
  case (Cons l ls)
  let ?s1 = "s\<lparr>gpos := gpos s + length l + 1\<rparr>"
  have d: "drop (gpos s) (buf s) = l @ newline # (terminated ls @ frag)"
    using Cons.prems by simp
  have nl: "newline \<notin> set l" using Cons.prems by simp
  have g: "getline s line = (?s1, l)"
    using Cons.prems(1) d nl by (rule getline_line)
  have good1: "stream_good ?s1" using Cons.prems(1) by (simp add: stream_good_def)
  have nf: "\<not> stream_fail (fst (getline s line))"
    using Cons.prems(1) by (simp add: g stream_fail_def stream_good_def)
  have t: "tellg ?s1 = (?s1, int (gpos ?s1))" using good1 by (rule tellg_good)
  have b1: "buf ?s1 = (pre @ l @ [newline]) @ terminated ls @ frag"
    using Cons.prems by simp
  have p1: "gpos ?s1 = length (pre @ l @ [newline])" using Cons.prems by simp
  have rest: "\<forall>l\<in>set ls. newline \<notin> set l" using Cons.prems by simp
  note IH = Cons.IH[OF good1 b1 p1 rest Cons.prems(5)]
  have "add_initial_lines_loop gsk s line rp il =
        add_initial_lines_loop gsk ?s1 l (int (gpos ?s1)) (scan_line gsk il l)"
    by (simp only: add_initial_lines_loop_step[OF nf] g t fst_conv snd_conv)
  also have "\<dots> = (if frag \<noteq> [] then - 1
          else if ls = [] then int (gpos ?s1)
          else int (length (pre @ l @ [newline]) + length (terminated ls)),
          foldl (scan_line gsk) (scan_line gsk il l) (ls @ (if frag = [] then [] else [frag])))"
    by (rule IH)
  finally show ?case by (simp add: Cons.prems(3))
qed

lemma add_initial_lines_loop_invariant:
  "(\<forall>il l. P il \<longrightarrow> P (scan_line gsk il l)) \<Longrightarrow> P il \<Longrightarrow>
   P (snd (add_initial_lines_loop gsk s line rp il))"
proof (induction gsk s line rp il rule: add_initial_lines_loop.induct)
  case (1 gsk s line rp il)
  show ?case
  proof (cases "stream_fail (fst (getline s line))")
    case True
    with 1 show ?thesis by (simp add: add_initial_lines_loop_stop)
  next
    case False
    have "P (scan_line gsk il (snd (getline s line)))"
      using "1.prems" by blast
    with "1.IH"[OF False "1.prems"(1)] show ?thesis
      by (simp only: add_initial_lines_loop_step[OF False])
  qed
qed

lemma open_ifstream_Some:
  "fs p = Some bytes \<Longrightarrow> open_ifstream fs p = \<lparr>buf = bytes, gpos = 0, eofbit = False, failbit = False\<rparr>"
  by (simp add: open_ifstream_def)

lemma open_ifstream_None:
  "fs p = None \<Longrightarrow> open_ifstream fs p = \<lparr>buf = [], gpos = 0, eofbit = False, failbit = True\<rparr>"
  by (simp add: open_ifstream_def)

lemma add_initial_lines_missing:
  "fs p = None \<Longrightarrow>
   add_initial_lines gsk fs p m = m\<lparr>initial_lines := initial_lines m, read_position := (read_position m)(p \<mapsto> 0)\<rparr>"
proof -
  assume n: "fs p = None"
  have "\<not> stream_good (open_ifstream fs p)"
    using n by (simp add: open_ifstream_def stream_good_def)
  then have "stream_fail (fst (getline (open_ifstream fs p) []))"
    by (rule getline_not_good)
  then show ?thesis
    by (simp add: add_initial_lines_def add_initial_lines_loop_stop)
qed

lemma add_initial_lines_complete:
  assumes "fs p = Some (terminated ls @ frag)" and "\<forall>l\<in>set ls. newline \<notin> set l"
    and "newline \<notin> set frag"
  shows "add_initial_lines gsk fs p m =
         m\<lparr>initial_lines := foldl (scan_line gsk) (initial_lines m) (ls @ (if frag = [] then [] else [frag])),
           read_position := (read_position m)(p \<mapsto>
              if frag \<noteq> [] then - 1 else int (length (terminated ls)))\<rparr>"
proof -
  let ?s = "open_ifstream fs p"
  have g: "stream_good ?s" using assms(1) by (simp add: open_ifstream_def stream_good_def)
  have b: "buf ?s = [] @ terminated ls @ frag" using assms(1) by (simp add: open_ifstream_def)
  have p: "gpos ?s = length ([]::string)" using assms(1) by (simp add: open_ifstream_def)
  have "add_initial_lines_loop gsk ?s [] 0 (initial_lines m) =
        (if frag \<noteq> [] then - 1 else if ls = [] then 0 else int (length ([]::string) + length (terminated ls)),
         foldl (scan_line gsk) (initial_lines m) (ls @ (if frag = [] then [] else [frag])))"
    using g b p assms(2,3) by (rule add_initial_lines_loop_lines)
  then show ?thesis
    by (cases "ls = []") (simp_all add: add_initial_lines_def)
qed

lemma initial_lines_add_initial_lines_invariant:
  "(\<forall>il l. P il \<longrightarrow> P (scan_line gsk il l)) \<Longrightarrow> P (initial_lines m) \<Longrightarrow>
   P (initial_lines (add_initial_lines gsk fs p m))"
  using add_initial_lines_loop_invariant[of P gsk "initial_lines m" "open_ifstream fs p" "[]" 0]
  by (simp add: add_initial_lines_def case_prod_beta)

lemma log_monitor_new_invariant:
  assumes step: "\<forall>il l. P il \<longrightarrow> P (scan_line gsk il l)" and "P []"
  shows "P (initial_lines (log_monitor_new gsk fs targets cb))"
proof -
  have "P (initial_lines m) \<Longrightarrow> P (initial_lines (fold (log_monitor_target gsk fs) targets m))" for m
  proof (induction targets arbitrary: m)
    case Nil
    then show ?case by simp
  next
    case (Cons t ts)
    have "P (initial_lines (add_initial_lines gsk fs (t @ ''.1.txt'') m))"
      using step Cons.prems by (rule initial_lines_add_initial_lines_invariant)
    with step have "P (initial_lines (add_initial_lines gsk fs (t @ ''.txt'')
        (add_initial_lines gsk fs (t @ ''.1.txt'') m)))"
      by (rule initial_lines_add_initial_lines_invariant)
    then have "P (initial_lines (log_monitor_target gsk fs t m))"
      by (simp add: log_monitor_target_def)
    then show ?case using Cons.IH by simp
  qed
  with assms(2) show ?thesis by (simp add: log_monitor_new_def)
qed

lemma open_ifstream_fail: "stream_fail (open_ifstream fs p) \<longleftrightarrow> fs p = None"
  by (simp add: open_ifstream_def stream_fail_def split: option.splits)

lemma call_callback_seek_at:
  assumes "fs p = Some c" and "read_position m p = Some pos" and "0 \<le> pos" and "pos < int (length c)"
  shows "call_callback_seek fs p m = \<lparr>buf = c, gpos = nat pos, eofbit = False, failbit = False\<rparr>"
  using assms
  by (simp add: call_callback_seek_def file_size_def open_ifstream_def seekg_def sentry_def
      stream_good_def)

lemma call_callback_seek_start:
  assumes "fs p = Some c" and "read_position m p = Some pos" and "int (length c) \<le> pos"
  shows "call_callback_seek fs p m = \<lparr>buf = c, gpos = 0, eofbit = False, failbit = False\<rparr>"
  using assms
  by (simp add: call_callback_seek_def file_size_def open_ifstream_def)

lemma call_callback_seek_negative:
  assumes "fs p = Some c" and "read_position m p = Some pos" and "pos < 0"
  shows "call_callback_seek fs p m = \<lparr>buf = c, gpos = 0, eofbit = False, failbit = True\<rparr>"
  using assms
  by (simp add: call_callback_seek_def file_size_def open_ifstream_def seekg_def sentry_def
      stream_good_def)

lemma call_callback_unfold:
  "fs p = Some c \<Longrightarrow>
   call_callback fs p m =
   m\<lparr>read_position := (read_position m)(p \<mapsto>
        fst (call_callback_loop (callback_present m) (call_callback_seek fs p m) [] 0 (delivered m))),
     delivered := snd (call_callback_loop (callback_present m) (call_callback_seek fs p m) [] 0 (delivered m))\<rparr>"
  by (simp add: call_callback_def open_ifstream_fail case_prod_beta)

lemma call_callback_missing: "fs p = None \<Longrightarrow> call_callback fs p m = m"
  by (simp add: call_callback_def open_ifstream_fail)

lemma call_callback_from:
  assumes "fs p = Some (pre @ terminated ls @ frag)"
    and "read_position m p = Some (int (length pre))"
    and "ls \<noteq> [] \<or> frag \<noteq> []"
    and "\<forall>l\<in>set ls. newline \<notin> set l" and "newline \<notin> set frag"
  shows "call_callback fs p m =
         m\<lparr>read_position := (read_position m)(p \<mapsto>
              if frag \<noteq> [] then - 1 else int (length pre + length (terminated ls))),
           delivered := (if callback_present m
              then delivered m @ ls @ (if frag = [] then [] else [frag]) else delivered m)\<rparr>"
proof -
  let ?c = "pre @ terminated ls @ frag"
  let ?s = "\<lparr>buf = ?c, gpos = length pre, eofbit = False, failbit = False\<rparr>"
  have "0 < length (terminated ls) + length frag"
    using assms(3) by (cases ls) auto
  then have lt: "int (length pre) < int (length ?c)"
    unfolding length_append by linarith
  have "call_callback_seek fs p m =
      \<lparr>buf = ?c, gpos = nat (int (length pre)), eofbit = False, failbit = False\<rparr>"
    using assms(1,2) _ lt by (rule call_callback_seek_at) simp
  then have seek: "call_callback_seek fs p m = ?s" by simp
  have loop: "call_callback_loop (callback_present m) ?s [] 0 (delivered m) =
         (if frag \<noteq> [] then - 1
          else if ls = [] then 0
          else int (length pre + length (terminated ls)),
          if callback_present m then delivered m @ ls @ (if frag = [] then [] else [frag])
          else delivered m)"
    using assms(4,5) by (intro call_callback_loop_lines) (simp_all add: stream_good_def)
  have "call_callback fs p m =
     m\<lparr>read_position := (read_position m)(p \<mapsto>
        fst (call_callback_loop (callback_present m) (call_callback_seek fs p m) [] 0 (delivered m))),
       delivered := snd (call_callback_loop (callback_present m) (call_callback_seek fs p m) [] 0 (delivered m))\<rparr>"
    using assms(1) by (rule call_callback_unfold)
  then show ?thesis
    using assms(3) by (simp add: seek loop)
qed

lemma call_callback_restart:
  assumes "fs p = Some (terminated ls @ frag)"
    and "read_position m p = Some pos" and "int (length (terminated ls @ frag)) \<le> pos"
    and "\<forall>l\<in>set ls. newline \<notin> set l" and "newline \<notin> set frag"
  shows "call_callback fs p m =
         m\<lparr>read_position := (read_position m)(p \<mapsto>
              if frag \<noteq> [] then - 1 else if ls = [] then 0 else int (length (terminated ls))),
           delivered := (if callback_present m
              then delivered m @ ls @ (if frag = [] then [] else [frag]) else delivered m)\<rparr>"
proof -
  let ?c = "terminated ls @ frag"
  let ?s = "\<lparr>buf = ?c, gpos = 0, eofbit = False, failbit = False\<rparr>"
  have seek: "call_callback_seek fs p m = ?s"
    using assms(1,2,3) by (rule call_callback_seek_start)
  have loop: "call_callback_loop (callback_present m) ?s [] 0 (delivered m) =
         (if frag \<noteq> [] then - 1
          else if ls = [] then 0
          else int (length ([]::string) + length (terminated ls)),
          if callback_present m then delivered m @ ls @ (if frag = [] then [] else [frag])
          else delivered m)"
    using assms(4,5) by (intro call_callback_loop_lines) (simp_all add: stream_good_def)
  have "call_callback fs p m =
     m\<lparr>read_position := (read_position m)(p \<mapsto>
        fst (call_callback_loop (callback_present m) (call_callback_seek fs p m) [] 0 (delivered m))),
       delivered := snd (call_callback_loop (callback_present m) (call_callback_seek fs p m) [] 0 (delivered m))\<rparr>"
    using assms(1) by (rule call_callback_unfold)
  then show ?thesis
    by (simp add: seek loop)
qed

lemma call_callback_no_lines:
  assumes "fs p = Some c" and "stream_fail (fst (getline (call_callback_seek fs p m) []))"
  shows "call_callback fs p m = m\<lparr>read_position := (read_position m)(p \<mapsto> 0), delivered := delivered m\<rparr>"
proof -
  have "call_callback fs p m =
     m\<lparr>read_position := (read_position m)(p \<mapsto>
        fst (call_callback_loop (callback_present m) (call_callback_seek fs p m) [] 0 (delivered m))),
       delivered := snd (call_callback_loop (callback_present m) (call_callback_seek fs p m) [] 0 (delivered m))\<rparr>"
    using assms(1) by (rule call_callback_unfold)
  then show ?thesis
    by (simp add: call_callback_loop_stop[OF assms(2)])
qed

lemma call_callback_negative:
  assumes "fs p = Some c" and "read_position m p = Some pos" and "pos < 0"
  shows "call_callback fs p m = m\<lparr>read_position := (read_position m)(p \<mapsto> 0), delivered := delivered m\<rparr>"
proof -
  have "call_callback_seek fs p m = \<lparr>buf = c, gpos = 0, eofbit = False, failbit = True\<rparr>"
    using assms by (rule call_callback_seek_negative)
  then have "\<not> stream_good (call_callback_seek fs p m)"
    by (simp add: stream_good_def)
  then have "stream_fail (fst (getline (call_callback_seek fs p m) []))"
    by (rule getline_not_good)
  with assms(1) show ?thesis by (rule call_callback_no_lines)
qed

lemma call_callback_loop_extends:
  "\<exists>ext. snd (call_callback_loop cb s line rp out) = out @ ext"
proof (induction cb s line rp out rule: call_callback_loop.induct)
  case (1 cb s line rp out)
  show ?case
  proof (cases "stream_fail (fst (getline s line))")
    case True
    then show ?thesis by (simp add: call_callback_loop_stop)
  next
    case False
    from "1.IH"[OF False] obtain ext where
      "snd (call_callback_loop cb s line rp out) = (if cb then out @ [snd (getline s line)] else out) @ ext"
      by (auto simp only: call_callback_loop_step[OF False])
    then show ?thesis by (cases cb) auto
  qed
qed

lemma call_callback_frame:
  "initial_lines (call_callback fs q m) = initial_lines m"
  "files (call_callback fs q m) = files m"
  "callback_present (call_callback fs q m) = callback_present m"
  "p \<noteq> q \<Longrightarrow> read_position (call_callback fs q m) p = read_position m p"
  by (simp_all add: call_callback_def case_prod_beta)

lemma call_callback_extends: "\<exists>ext. delivered (call_callback fs q m) = delivered m @ ext"
  using call_callback_loop_extends[of "callback_present m" "call_callback_seek fs q m" "[]" 0 "delivered m"]
  by (auto simp: call_callback_def case_prod_beta)

lemma timer_event_file_frame:
  "initial_lines (timer_event_file fs q m) = initial_lines m"
  "files (timer_event_file fs q m) = files m"
  "callback_present (timer_event_file fs q m) = callback_present m"
  "p \<noteq> q \<Longrightarrow> read_position (timer_event_file fs q m) p = read_position m p"
  by (simp_all add: timer_event_file_def call_callback_frame split: option.splits)

lemma timer_event_file_extends: "\<exists>ext. delivered (timer_event_file fs q m) = delivered m @ ext"
  using call_callback_extends[of fs q m]
  by (auto simp: timer_event_file_def split: option.splits)

lemma fold_timer_event_file_frame:
  "initial_lines (fold (timer_event_file fs) fl m) = initial_lines m"
  "files (fold (timer_event_file fs) fl m) = files m"
  "callback_present (fold (timer_event_file fs) fl m) = callback_present m"
  "p \<notin> set fl \<Longrightarrow> read_position (fold (timer_event_file fs) fl m) p = read_position m p"
  by (induction fl arbitrary: m) (auto simp: timer_event_file_frame)

lemma fold_timer_event_file_extends:
  "\<exists>ext. delivered (fold (timer_event_file fs) fl m) = delivered m @ ext"
proof (induction fl arbitrary: m)
  case Nil
  then show ?case by simp
next
  case (Cons q fl)
  obtain e1 where e1: "delivered (timer_event_file fs q m) = delivered m @ e1"
    using timer_event_file_extends by blast
  obtain e2 where "delivered (fold (timer_event_file fs) fl (timer_event_file fs q m)) =
      delivered (timer_event_file fs q m) @ e2"
    using Cons.IH by blast
  with e1 show ?case by simp
qed

lemma timer_event_frame:
  "initial_lines (timer_event fs m) = initial_lines m"
  "files (timer_event fs m) = files m"
  "callback_present (timer_event fs m) = callback_present m"
  by (simp_all add: timer_event_def fold_timer_event_file_frame)

lemma timer_events_frame:
  "initial_lines (timer_events fss m) = initial_lines m"
  "files (timer_events fss m) = files m"
  "callback_present (timer_events fss m) = callback_present m"
  by (induction fss arbitrary: m) (simp_all add: timer_event_frame)

lemma app_monitor_state:
  "app_monitor = \<lparr>callback_present = True, initial_lines = [],
      read_position = [''app.1.txt'' \<mapsto> 0, ''app.txt'' \<mapsto> 0],
      files = [''app.txt''], delivered = []\<rparr>"
  by (simp add: app_monitor_def log_monitor_new_def log_monitor_target_def
      add_initial_lines_missing no_files_def)

subsection \<open>The buffer of initial lines\<close>

text \<open>
  Claim C1. Whatever lines are inserted into the buffer, starting from the empty buffer
  of a new monitor, the buffer is sorted by key (non-decreasing) and holds at most 250
  entries after each insertion: \<open>take n ls\<close> is the part of the sequence \<open>ls\<close>
  inserted so far, and \<open>scan_line\<close> is one pass through the body of the loop of
  \<^verbatim>\<open>add_initial_lines\<close> (\<^verbatim>\<open>add_initial_line\<close>, then the eviction loop). The same holds
  of the buffer a constructed monitor returns from \<^verbatim>\<open>get_initial_lines\<close>, whatever the
  files contain.
\<close>

theorem initial_line_buffer_sorted_and_bounded:
  "sorted (map fst (foldl (scan_line gsk) [] (take n ls))) \<and>
   length (foldl (scan_line gsk) [] (take n ls)) \<le> 250 \<and>
   sorted (map fst (get_initial_lines (log_monitor_new gsk fs targets cb))) \<and>
   length (get_initial_lines (log_monitor_new gsk fs targets cb)) \<le> 250"
proof -
  let ?P = "\<lambda>il. sorted (map fst il) \<and> length il \<le> max_initial_lines"
  have step: "\<forall>il l. ?P il \<longrightarrow> ?P (scan_line gsk il l)"
    by (simp add: sorted_scan_line length_scan_line)
  have "?P (foldl (scan_line gsk) [] (take n ls))"
    using scan_lines_invariant[of "[]" gsk "take n ls"] by simp
  moreover have "?P (initial_lines (log_monitor_new gsk fs targets cb))"
    using step by (rule log_monitor_new_invariant) simp
  ultimately show ?thesis
    by (simp add: get_initial_lines_def max_initial_lines_def)
qed

text \<open>
  Claim C7. When the buffer holds 250 entries and the key of a line is smaller than
  every key in the buffer, \<^verbatim>\<open>add_initial_line\<close> returns \<^verbatim>\<open>false\<close> and the buffer is what
  it was.
\<close>

theorem full_buffer_rejects_older_line:
  assumes "length il = 250" and "gsk line = Some k" and "\<forall>e\<in>set il. k < fst e"
  shows "add_initial_line gsk line il = (False, il) \<and> scan_line gsk il line = il"
proof -
  from assms(1) have ne: "il \<noteq> []" by auto
  then have "hd il \<in> set il" by simp
  with assms(3) have "k < fst (hd il)" by blast
  with ne assms(2) have "add_initial_line gsk line il = (False, il)"
    by (rule add_initial_line_rejects)
  then show ?thesis by (simp add: scan_line_def)
qed

theorem full_buffer_rejects_older_line_witness:
  "length (replicate 250 (5 :: sort_key, ''new'')) = 250 \<and>
   fixed_key 3 ''old'' = Some 3 \<and>
   list_all (\<lambda>e. 3 < fst e) (replicate 250 (5 :: sort_key, ''new'')) \<and>
   add_initial_line (fixed_key 3) ''old'' (replicate 250 (5, ''new'')) =
     (False, replicate 250 (5, ''new'')) \<and>
   scan_line (fixed_key 3) (replicate 250 (5, ''new'')) ''old'' = replicate 250 (5, ''new'')"
  using full_buffer_rejects_older_line[of "replicate 250 (5, ''new'')" "fixed_key 3" "''old''" 3]
  by (simp add: fixed_key_def list_all_iff)

text \<open>
  Claim C6. Lines with equal keys stay in the order of their insertion. For every key
  \<open>k\<close>, the lines of the buffer that carry \<open>k\<close>, read front to back, are a
  subsequence of the lines with key \<open>k\<close> that were in the buffer already, followed by
  those inserted, in the order of insertion; so a line inserted later never stands before
  an earlier one with the same key. The reason is the second part: an insertion that is
  not refused puts the new entry after every entry whose key is not greater, right
  before the first entry whose key is greater.
\<close>

theorem equal_keys_keep_insertion_order:
  assumes "sorted (map fst il)"
  shows "subseq (map snd (filter (\<lambda>e. fst e = k) (foldl (scan_line gsk) il ls)))
           (map snd (filter (\<lambda>e. fst e = k) il) @ filter (\<lambda>l. gsk l = Some k) ls) \<and>
         (\<forall>line k'. gsk line = Some k' \<longrightarrow> (il = [] \<or> \<not> k' < fst (hd il)) \<longrightarrow>
            add_initial_line gsk line il =
              (True, takeWhile (\<lambda>e. fst e \<le> k') il @ (k', line) # dropWhile (\<lambda>e. fst e \<le> k') il))"
proof -
  have "subseq (map snd (filter (\<lambda>e. fst e = k) (foldl (scan_line gsk) il ls)))
          (map snd (filter (\<lambda>e. fst e = k) il @ map (Pair k) (filter (\<lambda>l. gsk l = Some k) ls)))"
    using scan_lines_stable[OF assms, of k gsk ls] by (rule subseq_map)
  moreover have "map snd (map (Pair k) xs) = xs" for xs :: "string list"
    by (induction xs) auto
  ultimately show ?thesis
    using add_initial_line_placed[OF assms] by simp
qed

theorem equal_keys_keep_insertion_order_witness:
  "sorted (map fst [(1 :: sort_key, ''a''), (2, ''b''), (3, ''c'')]) \<and>
   foldl (scan_line (fixed_key 2)) [(1, ''a''), (2, ''b''), (3, ''c'')] [''d''] =
     [(1, ''a''), (2, ''b''), (2, ''d''), (3, ''c'')] \<and>
   subseq (map snd (filter (\<lambda>e. fst e = 2)
             (foldl (scan_line (fixed_key 2)) [(1, ''a''), (2, ''b''), (3, ''c'')] [''d''])))
          [''b'', ''d'']"
proof -
  have s: "sorted (map fst [(1 :: sort_key, ''a''), (2, ''b''), (3, ''c'')])" by simp
  have e: "evict [(1 :: sort_key, ''a''), (2, ''b''), (2, ''d''), (3, ''c'')] =
           [(1, ''a''), (2, ''b''), (2, ''d''), (3, ''c'')]"
    by (simp add: evict_drop max_initial_lines_def)
  have f: "foldl (scan_line (fixed_key 2)) [(1, ''a''), (2, ''b''), (3, ''c'')] [''d''] =
     [(1, ''a''), (2, ''b''), (2, ''d''), (3, ''c'')]"
    by (simp add: scan_line_def add_initial_line_def fixed_key_def e)
  from equal_keys_keep_insertion_order[OF s, of 2 "fixed_key 2" "[''d'']"] s f show ?thesis
    by (simp add: fixed_key_def)
qed

subsection \<open>The historical scan\<close>

lemma scan_line_no_key: "gsk l = None \<Longrightarrow> scan_line gsk il l = il"
  by (simp add: scan_line_def add_initial_line_no_key)

lemma foldl_scan_line_filter:
  "foldl (scan_line gsk) il ls = foldl (scan_line gsk) il (filter (\<lambda>l. gsk l \<noteq> None) ls)"
  by (induction ls arbitrary: il) (simp_all add: scan_line_no_key)

lemma add_initial_line_entries:
  "e \<in> set (snd (add_initial_line gsk l il)) \<Longrightarrow> e \<in> set il \<or> gsk (snd e) \<noteq> None"
proof (cases "gsk l")
  case None
  assume "e \<in> set (snd (add_initial_line gsk l il))"
  with None show ?thesis by (simp add: add_initial_line_no_key)
next
  case (Some k)
  assume e: "e \<in> set (snd (add_initial_line gsk l il))"
  have "set (snd (add_initial_line gsk l il)) \<subseteq> insert (k, l) (set il)"
  proof (cases "insert_before_greater k l il")
    case None
    with Some show ?thesis by (auto simp: add_initial_line_def)
  next
    case (Some il')
    have "set (takeWhile (\<lambda>e. fst e \<le> k) il) \<union> set (dropWhile (\<lambda>e. fst e \<le> k) il) = set il"
      by (metis set_append takeWhile_dropWhile_id)
    then have "set il' = insert (k, l) (set il)"
      using insert_before_greater_Some[OF Some] by simp
    with Some \<open>gsk l = Some k\<close> show ?thesis by (auto simp: add_initial_line_def)
  qed
  with e Some show ?thesis by auto
qed

lemma scan_line_entries:
  "e \<in> set (scan_line gsk il l) \<Longrightarrow> e \<in> set il \<or> gsk (snd e) \<noteq> None"
proof -
  assume e: "e \<in> set (scan_line gsk il l)"
  have "set (scan_line gsk il l) \<subseteq> set (snd (add_initial_line gsk l il))"
    using set_drop_subset[of _ "snd (add_initial_line gsk l il)"]
    by (auto simp: scan_line_def evict_drop case_prod_beta)
  with e show ?thesis using add_initial_line_entries by blast
qed

text \<open>
  Claim C3, as amended. When the file cannot be opened, the loop of \<^verbatim>\<open>add_initial_lines\<close>
  reads no line, so the buffer and the callback trace are what they were; the assignment
  after the loop still runs and records the default-constructed position, \<open>0\<close>, for the
  path.
\<close>

theorem missing_file_scan_records_offset_zero:
  assumes "fs file_path = None"
  shows "get_initial_lines (add_initial_lines gsk fs file_path m) = get_initial_lines m \<and>
         delivered (add_initial_lines gsk fs file_path m) = delivered m \<and>
         read_position (add_initial_lines gsk fs file_path m) file_path = Some 0"
  using assms by (simp add: add_initial_lines_missing get_initial_lines_def)

theorem missing_file_scan_records_offset_zero_witness:
  "no_files ''app.txt'' = None \<and>
   get_initial_lines (add_initial_lines no_key no_files ''app.txt'' app_monitor) = [] \<and>
   read_position (add_initial_lines no_key no_files ''app.txt'' app_monitor) ''app.txt'' = Some 0"
  using missing_file_scan_records_offset_zero[of no_files "''app.txt''" no_key app_monitor]
  by (simp add: no_files_def app_monitor_state get_initial_lines_def)

text \<open>
  The claim as the spec states it fails: a monitor constructed on the target \<open>app\<close>
  when neither \<open>app.1.txt\<close> nor \<open>app.txt\<close> exists has an offset entry for both.
\<close>

theorem missing_file_has_offset_entry:
  "no_files ''app.1.txt'' = None \<and>
   read_position (log_monitor_new no_key no_files [''app''] True) ''app.1.txt'' = Some 0 \<and>
   read_position (log_monitor_new no_key no_files [''app''] True) ''app.txt'' = Some 0"
  using app_monitor_state by (simp add: app_monitor_def no_files_def)

text \<open>
  A file of complete lines, \<open>old\<close> followed by \<open>new\<close>. A line without a key is
  refused by \<^verbatim>\<open>add_initial_line\<close>; the historical scan leaves the buffer as if the
  lines without a key were not in the file, and puts no such line into it; the offset it
  records is nevertheless the end of the file, past every line. An incremental read that
  starts after \<open>old\<close> calls the callback with every line of \<open>new\<close>, with or
  without a key: \<^verbatim>\<open>call_callback\<close> never consults the key extractor. All of this
  rests on the file ending with a terminator.
\<close>

theorem lines_without_key_are_skipped_only_by_the_buffer:
  assumes "fs p = Some (terminated (old @ new))"
    and "\<forall>l\<in>set (old @ new). newline \<notin> set l" and "new \<noteq> []"
  shows "(\<forall>l il. gsk l = None \<longrightarrow> add_initial_line gsk l il = (False, il)) \<and>
         get_initial_lines (add_initial_lines gsk fs p m) =
           foldl (scan_line gsk) (get_initial_lines m) (filter (\<lambda>l. gsk l \<noteq> None) (old @ new)) \<and>
         (\<forall>e\<in>set (get_initial_lines (add_initial_lines gsk fs p m)).
            e \<in> set (get_initial_lines m) \<or> gsk (snd e) \<noteq> None) \<and>
         read_position (add_initial_lines gsk fs p m) p =
           Some (int (length (terminated (old @ new)))) \<and>
         (callback_present m \<and> read_position m p = Some (int (length (terminated old))) \<longrightarrow>
            delivered (call_callback fs p m) = delivered m @ new \<and>
            read_position (call_callback fs p m) p = Some (int (length (terminated (old @ new)))))"
proof -
  have fs0: "fs p = Some (terminated (old @ new) @ [])" using assms(1) by simp
  have scan: "add_initial_lines gsk fs p m =
      m\<lparr>initial_lines := foldl (scan_line gsk) (initial_lines m) ((old @ new) @ []),
        read_position := (read_position m)(p \<mapsto> int (length (terminated (old @ new))))\<rparr>"
    using add_initial_lines_complete[of fs p "old @ new" "[]" gsk m] fs0 assms(2) by simp
  have a: "\<forall>l il. gsk l = None \<longrightarrow> add_initial_line gsk l il = (False, il)"
    by (simp add: add_initial_line_no_key)
  have b: "get_initial_lines (add_initial_lines gsk fs p m) =
           foldl (scan_line gsk) (get_initial_lines m) (filter (\<lambda>l. gsk l \<noteq> None) (old @ new))"
    using foldl_scan_line_filter[of gsk "initial_lines m" "old @ new"]
    by (simp add: scan get_initial_lines_def)
  let ?P = "\<lambda>il. \<forall>e\<in>set il. e \<in> set (initial_lines m) \<or> gsk (snd e) \<noteq> None"
  have "\<forall>il l. ?P il \<longrightarrow> ?P (scan_line gsk il l)"
    using scan_line_entries by blast
  then have "?P (initial_lines (add_initial_lines gsk fs p m))"
    by (rule initial_lines_add_initial_lines_invariant) simp
  then have c: "\<forall>e\<in>set (get_initial_lines (add_initial_lines gsk fs p m)).
            e \<in> set (get_initial_lines m) \<or> gsk (snd e) \<noteq> None"
    by (simp add: get_initial_lines_def)
  have d: "read_position (add_initial_lines gsk fs p m) p =
           Some (int (length (terminated (old @ new))))"
    by (simp add: scan)
  have e: "delivered (call_callback fs p m) = delivered m @ new \<and>
           read_position (call_callback fs p m) p = Some (int (length (terminated (old @ new))))"
    if cb: "callback_present m" and rp: "read_position m p = Some (int (length (terminated old)))"
  proof -
    have fs1: "fs p = Some (terminated old @ terminated new @ [])" using assms(1) by simp
    have "call_callback fs p m =
         m\<lparr>read_position := (read_position m)(p \<mapsto>
              if ([]::string) \<noteq> [] then - 1 else int (length (terminated old) + length (terminated new))),
           delivered := (if callback_present m
              then delivered m @ new @ (if ([]::string) = [] then [] else [[]]) else delivered m)\<rparr>"
      using fs1 rp by (rule call_callback_from) (use assms(2,3) in simp_all)
    with cb show ?thesis by simp
  qed
  from a b c d e show ?thesis by blast
qed

theorem lines_without_key_are_skipped_only_by_the_buffer_witness:
  "one_file ''app.txt'' (terminated [''x'', ''y'']) ''app.txt'' = Some (terminated ([] @ [''x'', ''y''])) \<and>
   no_key ''x'' = None \<and>
   callback_present app_monitor \<and>
   read_position app_monitor ''app.txt'' = Some (int (length (terminated []))) \<and>
   get_initial_lines (add_initial_lines no_key (one_file ''app.txt'' (terminated [''x'', ''y'']))
      ''app.txt'' app_monitor) = [] \<and>
   read_position (add_initial_lines no_key (one_file ''app.txt'' (terminated [''x'', ''y'']))
      ''app.txt'' app_monitor) ''app.txt'' = Some 4 \<and>
   delivered (call_callback (one_file ''app.txt'' (terminated [''x'', ''y'']))
      ''app.txt'' app_monitor) = [''x'', ''y''] \<and>
   read_position (call_callback (one_file ''app.txt'' (terminated [''x'', ''y'']))
      ''app.txt'' app_monitor) ''app.txt'' = Some 4"
  using lines_without_key_are_skipped_only_by_the_buffer[of
      "one_file ''app.txt'' (terminated [''x'', ''y''])" "''app.txt''" "[]" "[''x'', ''y'']"
      no_key app_monitor]
  by (simp add: one_file_def no_key_def app_monitor_state get_initial_lines_def newline_def)

subsection \<open>Incremental reads\<close>

text \<open>
  Claim C5. \<^verbatim>\<open>get_initial_lines\<close> returns the buffer built by the constructor: an
  incremental read, a tick of the timer and any run of ticks, whatever the files hold at
  each of them, leave \<^verbatim>\<open>initial_lines_\<close> as it is.
\<close>

theorem initial_lines_fixed_after_construction:
  "get_initial_lines (call_callback fs p m) = get_initial_lines m \<and>
   get_initial_lines (timer_event fs m) = get_initial_lines m \<and>
   get_initial_lines (timer_events fss m) = get_initial_lines m \<and>
   get_initial_lines (timer_events fss (log_monitor_new gsk fs0 targets cb)) =
     get_initial_lines (log_monitor_new gsk fs0 targets cb)"
  by (simp add: get_initial_lines_def call_callback_frame timer_event_frame timer_events_frame)

text \<open>
  Claim C10. When \<^verbatim>\<open>call_callback\<close> has opened the file and the first \<^verbatim>\<open>std::getline\<close>
  already fails, so that the loop reads no line, the callback is not called and the
  offset of the path becomes \<open>0\<close>, the value of the local \<^verbatim>\<open>read_position\<close> that was
  never assigned, whatever offset was recorded before.
\<close>

theorem read_without_lines_resets_offset:
  assumes "\<not> stream_fail (open_ifstream fs file_path)"
    and "stream_fail (fst (getline (call_callback_seek fs file_path m) []))"
  shows "read_position (call_callback fs file_path m) file_path = Some 0 \<and>
         delivered (call_callback fs file_path m) = delivered m"
proof -
  from assms(1) obtain c where c: "fs file_path = Some c"
    by (auto simp: open_ifstream_fail)
  have "call_callback fs file_path m =
        m\<lparr>read_position := (read_position m)(file_path \<mapsto> 0), delivered := delivered m\<rparr>"
    using c assms(2) by (rule call_callback_no_lines)
  then show ?thesis by simp
qed

text \<open>
  The witness is a failed seek: the recorded offset is \<open>-1\<close>, \<^verbatim>\<open>seekg\<close> sets
  \<^verbatim>\<open>failbit\<close>, and the read replaces \<open>-1\<close> by \<open>0\<close>.
\<close>

theorem read_without_lines_resets_offset_witness:
  "\<not> stream_fail (open_ifstream (one_file ''app.txt'' ''late'') ''app.txt'') \<and>
   stream_fail (fst (getline (call_callback_seek (one_file ''app.txt'' ''late'') ''app.txt''
      (app_monitor\<lparr>read_position := [''app.txt'' \<mapsto> - 1]\<rparr>)) [])) \<and>
   read_position (call_callback (one_file ''app.txt'' ''late'') ''app.txt''
      (app_monitor\<lparr>read_position := [''app.txt'' \<mapsto> - 1]\<rparr>)) ''app.txt'' = Some 0"
proof -
  let ?fs = "one_file ''app.txt'' ''late''"
  let ?m = "app_monitor\<lparr>read_position := [''app.txt'' \<mapsto> - 1]\<rparr>"
  have o: "\<not> stream_fail (open_ifstream ?fs ''app.txt'')"
    by (simp add: open_ifstream_fail one_file_def)
  have "call_callback_seek ?fs ''app.txt'' ?m =
        \<lparr>buf = ''late'', gpos = 0, eofbit = False, failbit = True\<rparr>"
    by (rule call_callback_seek_negative[where pos = "- 1"]) (simp_all add: one_file_def)
  then have "\<not> stream_good (call_callback_seek ?fs ''app.txt'' ?m)"
    by (simp add: stream_good_def)
  then have g: "stream_fail (fst (getline (call_callback_seek ?fs ''app.txt'' ?m) []))"
    by (rule getline_not_good)
  from read_without_lines_resets_offset[OF o g] o g show ?thesis by blast
qed

text \<open>
  Claim C2 does not hold of the code. On a file with the lines \<open>A\<close> and \<open>B\<close> and
  the unterminated fragment \<open>C\<close>, \<^verbatim>\<open>std::getline\<close> returns \<open>C\<close> too (with \<^verbatim>\<open>eofbit\<close>
  set and \<^verbatim>\<open>failbit\<close> clear), so the callback is called three times, and the
  \<^verbatim>\<open>tellg\<close> that follows fails and yields \<open>-1\<close>, which is what the read records, not the
  position \<open>4\<close> after the terminator of \<open>B\<close>.
\<close>

theorem unterminated_fragment_read:
  "delivered (call_callback (one_file ''app.txt'' (terminated [''A'', ''B''] @ ''C''))
      ''app.txt'' app_monitor) = [''A'', ''B'', ''C''] \<and>
   read_position (call_callback (one_file ''app.txt'' (terminated [''A'', ''B''] @ ''C''))
      ''app.txt'' app_monitor) ''app.txt'' = Some (- 1) \<and>
   int (length (terminated [''A'', ''B''])) = 4"
proof -
  let ?fs = "one_file ''app.txt'' (terminated [''A'', ''B''] @ ''C'')"
  have "call_callback ?fs ''app.txt'' app_monitor =
         app_monitor\<lparr>read_position := (read_position app_monitor)(''app.txt'' \<mapsto>
              if ''C'' \<noteq> [] then - 1 else int (length ([]::string) + length (terminated [''A'', ''B'']))),
           delivered := (if callback_present app_monitor
              then delivered app_monitor @ [''A'', ''B''] @ (if ''C'' = [] then [] else [''C''])
              else delivered app_monitor)\<rparr>"
    by (rule call_callback_from)
       (simp_all add: one_file_def app_monitor_state newline_def)
  then show ?thesis by (simp add: app_monitor_state)
qed

text \<open>
  Claim C4, as amended. The seek phase of \<^verbatim>\<open>call_callback\<close> seeks to the recorded offset
  when it is less than the size of the file and otherwise leaves the stream at the start.
  So, when the lines \<open>A\<close> and \<open>B\<close> have been delivered and the file is then replaced
  by the single line \<open>D\<close>, the next read starts at the beginning and delivers \<open>D\<close>,
  and nothing else, provided the new file is not longer than the recorded offset.
\<close>

theorem rewritten_file_is_read_from_start:
  assumes "newline \<notin> set A" and "newline \<notin> set B" and "newline \<notin> set D"
    and "callback_present m" and "read_position m p = Some 0"
    and "fs1 p = Some (terminated [A, B])" and "fs2 p = Some (terminated [D])"
    and "length (terminated [D]) \<le> length (terminated [A, B])"
  shows "(\<forall>fs m' pos c. fs p = Some c \<and> read_position m' p = Some pos \<longrightarrow>
            call_callback_seek fs p m' =
              (if pos < int (length c) then seekg (open_ifstream fs p) pos
               else open_ifstream fs p) \<and>
            gpos (open_ifstream fs p) = 0) \<and>
         delivered (call_callback fs1 p m) = delivered m @ [A, B] \<and>
         read_position (call_callback fs1 p m) p = Some (int (length (terminated [A, B]))) \<and>
         delivered (call_callback fs2 p (call_callback fs1 p m)) = delivered m @ [A, B] @ [D] \<and>
         read_position (call_callback fs2 p (call_callback fs1 p m)) p =
           Some (int (length (terminated [D])))"
proof -
  let ?m1 = "call_callback fs1 p m"
  have seek: "\<forall>fs m' pos c. fs p = Some c \<and> read_position m' p = Some pos \<longrightarrow>
            call_callback_seek fs p m' =
              (if pos < int (length c) then seekg (open_ifstream fs p) pos
               else open_ifstream fs p) \<and>
            gpos (open_ifstream fs p) = 0"
    by (simp add: call_callback_seek_def file_size_def open_ifstream_def)
  have fs1: "fs1 p = Some ([] @ terminated [A, B] @ [])" using assms(6) by simp
  have rp: "read_position m p = Some (int (length ([]::string)))" using assms(5) by simp
  have "?m1 =
         m\<lparr>read_position := (read_position m)(p \<mapsto>
              if ([]::string) \<noteq> [] then - 1 else int (length ([]::string) + length (terminated [A, B]))),
           delivered := (if callback_present m
              then delivered m @ [A, B] @ (if ([]::string) = [] then [] else [[]]) else delivered m)\<rparr>"
    using fs1 rp by (rule call_callback_from) (use assms(1,2) in simp_all)
  then have m1: "?m1 = m\<lparr>read_position := (read_position m)(p \<mapsto> int (length (terminated [A, B]))),
           delivered := delivered m @ [A, B]\<rparr>"
    using assms(4) by simp
  have fs2: "fs2 p = Some (terminated [D] @ [])" using assms(7) by simp
  have rp1: "read_position ?m1 p = Some (int (length (terminated [A, B])))"
    by (simp add: m1)
  have le: "int (length (terminated [D] @ [])) \<le> int (length (terminated [A, B]))"
    using assms(8) by simp
  have "call_callback fs2 p ?m1 =
         ?m1\<lparr>read_position := (read_position ?m1)(p \<mapsto>
              if ([]::string) \<noteq> [] then - 1 else if [D] = [] then 0 else int (length (terminated [D]))),
           delivered := (if callback_present ?m1
              then delivered ?m1 @ [D] @ (if ([]::string) = [] then [] else [[]]) else delivered ?m1)\<rparr>"
    using fs2 rp1 le by (rule call_callback_restart) (use assms(3) in simp_all)
  then have m2: "call_callback fs2 p ?m1 =
      ?m1\<lparr>read_position := (read_position ?m1)(p \<mapsto> int (length (terminated [D]))),
          delivered := delivered ?m1 @ [D]\<rparr>"
    using assms(4) by (simp add: call_callback_frame)
  have "delivered (call_callback fs2 p ?m1) = delivered m @ [A, B] @ [D]"
    by (simp add: m2) (simp add: m1)
  moreover have "read_position (call_callback fs2 p ?m1) p = Some (int (length (terminated [D])))"
    by (simp add: m2)
  moreover have "delivered ?m1 = delivered m @ [A, B]" by (simp add: m1)
  ultimately show ?thesis using seek rp1 by blast
qed

theorem rewritten_file_is_read_from_start_witness:
  "newline \<notin> set ''first'' \<and> newline \<notin> set ''second'' \<and> newline \<notin> set ''third'' \<and>
   callback_present app_monitor \<and> read_position app_monitor ''app.txt'' = Some 0 \<and>
   length (terminated [''third'']) \<le> length (terminated [''first'', ''second'']) \<and>
   delivered (call_callback (one_file ''app.txt'' (terminated [''first'', ''second'']))
      ''app.txt'' app_monitor) = [''first'', ''second''] \<and>
   delivered (call_callback (one_file ''app.txt'' (terminated [''third''])) ''app.txt''
      (call_callback (one_file ''app.txt'' (terminated [''first'', ''second'']))
         ''app.txt'' app_monitor)) = [''first'', ''second'', ''third''] \<and>
   read_position (call_callback (one_file ''app.txt'' (terminated [''third''])) ''app.txt''
      (call_callback (one_file ''app.txt'' (terminated [''first'', ''second'']))
         ''app.txt'' app_monitor)) ''app.txt'' = Some 6"
  using rewritten_file_is_read_from_start[of "''first''" "''second''" "''third''" app_monitor
      "''app.txt''" "one_file ''app.txt'' (terminated [''first'', ''second''])"
      "one_file ''app.txt'' (terminated [''third''])"]
  by (simp add: one_file_def app_monitor_state newline_def)

text \<open>
  Without the proviso the claim fails: after \<open>a\<close> and \<open>b\<close> (four bytes) the file is
  rewritten with the line \<open>hello\<close> (six bytes); the recorded offset \<open>4\<close> is less than
  the new size, the read seeks into the middle of the line, and the callback receives
  \<open>o\<close>, not \<open>hello\<close>.
\<close>

theorem longer_rewrite_is_read_from_old_offset:
  "delivered (call_callback (one_file ''app.txt'' (terminated [''hello''])) ''app.txt''
      (call_callback (one_file ''app.txt'' (terminated [''a'', ''b''])) ''app.txt'' app_monitor)) =
     [''a'', ''b'', ''o'']"
proof -
  let ?fs1 = "one_file ''app.txt'' (terminated [''a'', ''b''])"
  let ?fs2 = "one_file ''app.txt'' (terminated [''hello''])"
  let ?m1 = "call_callback ?fs1 ''app.txt'' app_monitor"
  have "?m1 =
         app_monitor\<lparr>read_position := (read_position app_monitor)(''app.txt'' \<mapsto>
              if ([]::string) \<noteq> [] then - 1 else int (length ([]::string) + length (terminated [''a'', ''b'']))),
           delivered := (if callback_present app_monitor
              then delivered app_monitor @ [''a'', ''b''] @ (if ([]::string) = [] then [] else [[]])
              else delivered app_monitor)\<rparr>"
    by (rule call_callback_from)
       (simp_all add: one_file_def app_monitor_state newline_def)
  then have m1: "?m1 = app_monitor\<lparr>read_position := (read_position app_monitor)(''app.txt'' \<mapsto> 4),
      delivered := [''a'', ''b'']\<rparr>"
    by (simp add: app_monitor_state)
  have rp1: "read_position ?m1 ''app.txt'' = Some (int (length ''hell''))"
    unfolding m1 by simp
  have fs2: "?fs2 ''app.txt'' = Some (''hell'' @ terminated [''o''] @ [])"
    by (simp add: one_file_def)
  have "call_callback ?fs2 ''app.txt'' ?m1 =
         ?m1\<lparr>read_position := (read_position ?m1)(''app.txt'' \<mapsto>
              if ([]::string) \<noteq> [] then - 1 else int (length ''hell'' + length (terminated [''o'']))),
           delivered := (if callback_present ?m1
              then delivered ?m1 @ [''o''] @ (if ([]::string) = [] then [] else [[]])
              else delivered ?m1)\<rparr>"
    using fs2 rp1 by (rule call_callback_from) (simp_all add: newline_def)
  then have "delivered (call_callback ?fs2 ''app.txt'' ?m1) = delivered ?m1 @ [''o'']"
    by (simp add: call_callback_frame app_monitor_state)
  also have "delivered ?m1 = [''a'', ''b'']"
    unfolding m1 by simp
  finally show ?thesis by simp
qed

subsection \<open>A file that ends in an unterminated fragment\<close>

lemma timer_event_file_after_failed_tellg:
  assumes "fs p = Some c" and "read_position m p = Some (- 1)"
  shows "timer_event_file fs p m =
         m\<lparr>read_position := (read_position m)(p \<mapsto> 0), delivered := delivered m\<rparr>"
proof -
  have "call_callback fs p m =
        m\<lparr>read_position := (read_position m)(p \<mapsto> 0), delivered := delivered m\<rparr>"
    using assms by (rule call_callback_negative) simp
  with assms show ?thesis
    by (simp add: timer_event_file_def file_size_def)
qed

lemma timer_event_file_from_start:
  assumes "fs p = Some (terminated ls @ frag)" and "frag \<noteq> []"
    and "\<forall>l\<in>set ls. newline \<notin> set l" and "newline \<notin> set frag"
    and "read_position m p = Some 0" and "callback_present m"
  shows "timer_event_file fs p m =
         m\<lparr>read_position := (read_position m)(p \<mapsto> - 1),
           delivered := delivered m @ ls @ [frag]\<rparr>"
proof -
  have fs0: "fs p = Some ([] @ terminated ls @ frag)" using assms(1) by simp
  have rp: "read_position m p = Some (int (length ([]::string)))" using assms(5) by simp
  have "call_callback fs p m =
         m\<lparr>read_position := (read_position m)(p \<mapsto>
              if frag \<noteq> [] then - 1 else int (length ([]::string) + length (terminated ls))),
           delivered := (if callback_present m
              then delivered m @ ls @ (if frag = [] then [] else [frag]) else delivered m)\<rparr>"
    using fs0 rp by (rule call_callback_from) (use assms(2,3,4) in simp_all)
  then have "call_callback fs p m =
         m\<lparr>read_position := (read_position m)(p \<mapsto> - 1),
           delivered := delivered m @ ls @ [frag]\<rparr>"
    using assms(2,6) by simp
  moreover have "int (length (terminated ls)) + int (length frag) \<noteq> 0"
    using assms(2) by (cases frag) auto
  ultimately show ?thesis
    using assms(1,5) by (simp add: timer_event_file_def file_size_def)
qed

lemma fold_timer_event_file_offset:
  assumes "fs p = Some (terminated ls @ frag)" and "frag \<noteq> []"
    and "\<forall>l\<in>set ls. newline \<notin> set l" and "newline \<notin> set frag"
  shows "callback_present m \<Longrightarrow>
         read_position m p = Some (- 1) \<or> read_position m p = Some 0 \<Longrightarrow>
         read_position (fold (timer_event_file fs) fl m) p = Some (- 1) \<or>
         read_position (fold (timer_event_file fs) fl m) p = Some 0"
proof (induction fl arbitrary: m)
  case Nil
  then show ?case by simp
next
  case (Cons q fl)
  let ?m' = "timer_event_file fs q m"
  have cb: "callback_present ?m'" using Cons.prems(1) by (simp add: timer_event_file_frame)
  have "read_position ?m' p = Some (- 1) \<or> read_position ?m' p = Some 0"
  proof (cases "q = p")
    case False
    then show ?thesis using Cons.prems(2) by (simp add: timer_event_file_frame)
  next
    case True
    from Cons.prems(2) show ?thesis
    proof
      assume "read_position m p = Some (- 1)"
      with assms(1) show ?thesis
        by (simp add: True timer_event_file_after_failed_tellg)
    next
      assume "read_position m p = Some 0"
      with assms Cons.prems(1) show ?thesis
        by (simp add: True timer_event_file_from_start)
    qed
  qed
  with cb show ?case using Cons.IH by simp
qed

lemma fold_timer_event_file_delivers_from_zero:
  assumes "fs p = Some (terminated ls @ frag)" and "frag \<noteq> []"
    and "\<forall>l\<in>set ls. newline \<notin> set l" and "newline \<notin> set frag"
  shows "callback_present m \<Longrightarrow> read_position m p = Some 0 \<Longrightarrow> p \<in> set fl \<Longrightarrow>
         \<exists>pre post. delivered (fold (timer_event_file fs) fl m) =
            delivered m @ pre @ ls @ [frag] @ post"
proof (induction fl arbitrary: m)
  case Nil
  then show ?case by simp
next
  case (Cons q fl)
  let ?m' = "timer_event_file fs q m"
  show ?case
  proof (cases "q = p")
    case True
    have m': "?m' = m\<lparr>read_position := (read_position m)(p \<mapsto> - 1),
           delivered := delivered m @ ls @ [frag]\<rparr>"
      unfolding True using assms Cons.prems(2,1) by (rule timer_event_file_from_start)
    obtain ext where "delivered (fold (timer_event_file fs) fl ?m') = delivered ?m' @ ext"
      using fold_timer_event_file_extends by blast
    then have "delivered (fold (timer_event_file fs) (q # fl) m) =
        delivered m @ [] @ ls @ [frag] @ ext"
      by (simp add: m')
    then show ?thesis by blast
  next
    case False
    with Cons.prems have in_fl: "p \<in> set fl" by auto
    have cb: "callback_present ?m'" using Cons.prems(1) by (simp add: timer_event_file_frame)
    have rp: "read_position ?m' p = Some 0"
      using False Cons.prems(2) by (simp add: timer_event_file_frame)
    obtain e1 where e1: "delivered ?m' = delivered m @ e1"
      using timer_event_file_extends by blast
    obtain pre post where
      "delivered (fold (timer_event_file fs) fl ?m') = delivered ?m' @ pre @ ls @ [frag] @ post"
      using Cons.IH[OF cb rp in_fl] by blast
    then have "delivered (fold (timer_event_file fs) (q # fl) m) =
        delivered m @ (e1 @ pre) @ ls @ [frag] @ post"
      by (simp add: e1)
    then show ?thesis by blast
  qed
qed

lemma fold_timer_event_file_delivers_from_minus_one:
  assumes "fs p = Some (terminated ls @ frag)" and "frag \<noteq> []"
    and "\<forall>l\<in>set ls. newline \<notin> set l" and "newline \<notin> set frag"
  shows "callback_present m \<Longrightarrow> read_position m p = Some (- 1) \<Longrightarrow> p \<in> set fl \<Longrightarrow>
         read_position (fold (timer_event_file fs) fl m) p = Some (- 1) \<Longrightarrow>
         \<exists>pre post. delivered (fold (timer_event_file fs) fl m) =
            delivered m @ pre @ ls @ [frag] @ post"
proof (induction fl arbitrary: m)
  case Nil
  then show ?case by simp
next
  case (Cons q fl)
  let ?m' = "timer_event_file fs q m"
  have cb: "callback_present ?m'" using Cons.prems(1) by (simp add: timer_event_file_frame)
  have last: "read_position (fold (timer_event_file fs) fl ?m') p = Some (- 1)"
    using Cons.prems(4) by simp
  show ?case
  proof (cases "q = p")
    case True
    have m': "?m' = m\<lparr>read_position := (read_position m)(p \<mapsto> 0), delivered := delivered m\<rparr>"
      unfolding True using assms(1) Cons.prems(2) by (rule timer_event_file_after_failed_tellg)
    then have rp: "read_position ?m' p = Some 0" by simp
    have in_fl: "p \<in> set fl"
    proof (rule ccontr)
      assume "p \<notin> set fl"
      then have "read_position (fold (timer_event_file fs) fl ?m') p = read_position ?m' p"
        by (rule fold_timer_event_file_frame)
      with last rp show False by simp
    qed
    obtain pre post where
      "delivered (fold (timer_event_file fs) fl ?m') = delivered ?m' @ pre @ ls @ [frag] @ post"
      using fold_timer_event_file_delivers_from_zero[where fs = fs and p = p, OF assms cb rp in_fl]
      by blast
    then have "delivered (fold (timer_event_file fs) (q # fl) m) =
        delivered m @ pre @ ls @ [frag] @ post"
      by (simp add: m')
    then show ?thesis by blast
  next
    case False
    with Cons.prems have in_fl: "p \<in> set fl" by auto
    have rp: "read_position ?m' p = Some (- 1)"
      using False Cons.prems(2) by (simp add: timer_event_file_frame)
    obtain e1 where e1: "delivered ?m' = delivered m @ e1"
      using timer_event_file_extends by blast
    obtain pre post where
      "delivered (fold (timer_event_file fs) fl ?m') = delivered ?m' @ pre @ ls @ [frag] @ post"
      using Cons.IH[OF cb rp in_fl last] by blast
    then have "delivered (fold (timer_event_file fs) (q # fl) m) =
        delivered m @ (e1 @ pre) @ ls @ [frag] @ post"
      by (simp add: e1)
    then show ?thesis by blast
  qed
qed

lemma timer_event_extends: "\<exists>ext. delivered (timer_event fs m) = delivered m @ ext"
  by (simp add: timer_event_def fold_timer_event_file_extends)

lemma two_ticks_deliver_again:
  assumes "fs1 p = Some (terminated ls @ frag)" and "fs2 p = Some (terminated ls @ frag)"
    and "frag \<noteq> []" and "\<forall>l\<in>set ls. newline \<notin> set l" and "newline \<notin> set frag"
    and cb: "callback_present m" and inf: "p \<in> set (files m)"
    and rp: "read_position m p = Some (- 1) \<or> read_position m p = Some 0"
  shows "\<exists>pre post. delivered (timer_event fs2 (timer_event fs1 m)) =
            delivered m @ pre @ ls @ [frag] @ post"
proof -
  let ?m1 = "timer_event fs1 m"
  note c1 = assms(1,3,4,5) and c2 = assms(2,3,4,5)
  have cb1: "callback_present ?m1" using cb by (simp add: timer_event_frame)
  have inf1: "p \<in> set (files ?m1)" using inf by (simp add: timer_event_frame)
  have rp1: "read_position ?m1 p = Some (- 1) \<or> read_position ?m1 p = Some 0"
    unfolding timer_event_def using c1 cb rp by (rule fold_timer_event_file_offset)
  have first: "\<exists>pre post. delivered (timer_event fs2 ?m1) = delivered m @ pre @ ls @ [frag] @ post"
    if "\<exists>pre post. delivered ?m1 = delivered m @ pre @ ls @ [frag] @ post"
  proof -
    from that obtain pre post where "delivered ?m1 = delivered m @ pre @ ls @ [frag] @ post"
      by blast
    moreover obtain ext where "delivered (timer_event fs2 ?m1) = delivered ?m1 @ ext"
      using timer_event_extends by blast
    ultimately have "delivered (timer_event fs2 ?m1) = delivered m @ pre @ ls @ [frag] @ (post @ ext)"
      by simp
    then show ?thesis by blast
  qed
  have second: "\<exists>pre post. delivered (timer_event fs2 ?m1) = delivered m @ pre @ ls @ [frag] @ post"
    if z: "read_position ?m1 p = Some 0"
  proof -
    obtain e1 where e1: "delivered ?m1 = delivered m @ e1"
      using timer_event_extends by blast
    obtain pre post where "delivered (fold (timer_event_file fs2) (files ?m1) ?m1) =
        delivered ?m1 @ pre @ ls @ [frag] @ post"
      using fold_timer_event_file_delivers_from_zero[where fs = fs2 and p = p, OF c2 cb1 z inf1]
      by blast
    then have "delivered (timer_event fs2 ?m1) = delivered m @ (e1 @ pre) @ ls @ [frag] @ post"
      by (simp add: timer_event_def[of fs2] e1)
    then show ?thesis by blast
  qed
  from rp show ?thesis
  proof
    assume z: "read_position m p = Some 0"
    have "\<exists>pre post. delivered ?m1 = delivered m @ pre @ ls @ [frag] @ post"
      unfolding timer_event_def using c1 cb z inf by (rule fold_timer_event_file_delivers_from_zero)
    then show ?thesis by (rule first)
  next
    assume n: "read_position m p = Some (- 1)"
    from rp1 show ?thesis
    proof
      assume n1: "read_position ?m1 p = Some (- 1)"
      have "\<exists>pre post. delivered ?m1 = delivered m @ pre @ ls @ [frag] @ post"
        unfolding timer_event_def using c1 cb n inf n1[unfolded timer_event_def]
        by (rule fold_timer_event_file_delivers_from_minus_one)
      then show ?thesis by (rule first)
    next
      assume "read_position ?m1 p = Some 0"
      then show ?thesis by (rule second)
    qed
  qed
qed

lemma timer_events_offset:
  assumes "frag \<noteq> []" and "\<forall>l\<in>set ls. newline \<notin> set l" and "newline \<notin> set frag"
  shows "\<forall>fs\<in>set fss. fs p = Some (terminated ls @ frag) \<Longrightarrow> callback_present m \<Longrightarrow>
         read_position m p = Some (- 1) \<or> read_position m p = Some 0 \<Longrightarrow>
         read_position (timer_events fss m) p = Some (- 1) \<or>
         read_position (timer_events fss m) p = Some 0"
proof (induction fss arbitrary: m)
  case Nil
  then show ?case by simp
next
  case (Cons fs fss)
  have fs: "fs p = Some (terminated ls @ frag)" using Cons.prems(1) by simp
  have cb: "callback_present (timer_event fs m)"
    using Cons.prems(2) by (simp add: timer_event_frame)
  have "read_position (timer_event fs m) p = Some (- 1) \<or>
        read_position (timer_event fs m) p = Some 0"
    unfolding timer_event_def using fs assms Cons.prems(2,3) by (rule fold_timer_event_file_offset)
  with Cons.IH[OF _ cb] Cons.prems(1) show ?case by simp
qed

text \<open>
  Claim C9. A monitored file holds the complete lines \<open>old @ new\<close> and then a
  non-empty unterminated fragment, and the recorded offset stands after \<open>old\<close>. The
  incremental read delivers \<open>new\<close> and the fragment and records \<open>-1\<close>, the result of
  \<^verbatim>\<open>tellg\<close> at the end of the file. From then on, with the file unchanged at every tick
  (\<open>fss\<close> is any run of ticks, \<open>fs1\<close> and \<open>fs2\<close> the two ticks after it), the
  recorded offset is \<open>-1\<close> or \<open>0\<close> and so never the size of the file, hence every
  tick reads the file again; within any two ticks in a row the callback receives all the
  lines of the file and the fragment once more. A poll of the file at offset \<open>-1\<close>
  fails to seek, delivers nothing and records \<open>0\<close>; the next one reads from the start,
  delivers everything and records \<open>-1\<close> again.
\<close>

theorem unterminated_fragment_is_read_again_and_again:
  assumes "\<forall>l\<in>set (old @ new). newline \<notin> set l" and "newline \<notin> set frag" and "frag \<noteq> []"
    and "\<forall>fs\<in>set (fs0 # fs1 # fs2 # fss). fs p = Some (terminated (old @ new) @ frag)"
    and "p \<in> set (files m)" and "callback_present m"
    and "read_position m p = Some (int (length (terminated old)))"
  shows "read_position (call_callback fs0 p m) p = Some (- 1) \<and>
         delivered (call_callback fs0 p m) = delivered m @ new @ [frag] \<and>
         (read_position (timer_events fss (call_callback fs0 p m)) p = Some (- 1) \<or>
          read_position (timer_events fss (call_callback fs0 p m)) p = Some 0) \<and>
         read_position (timer_events fss (call_callback fs0 p m)) p \<noteq>
           Some (int (length (terminated (old @ new) @ frag))) \<and>
         (\<exists>pre post.
            delivered (timer_event fs2 (timer_event fs1 (timer_events fss (call_callback fs0 p m)))) =
            delivered (timer_events fss (call_callback fs0 p m)) @ pre @ (old @ new) @ [frag] @ post) \<and>
         read_position (timer_event_file fs1 p (call_callback fs0 p m)) p = Some 0 \<and>
         delivered (timer_event_file fs1 p (call_callback fs0 p m)) =
           delivered (call_callback fs0 p m) \<and>
         read_position (timer_event_file fs2 p (timer_event_file fs1 p (call_callback fs0 p m))) p =
           Some (- 1) \<and>
         delivered (timer_event_file fs2 p (timer_event_file fs1 p (call_callback fs0 p m))) =
           delivered (call_callback fs0 p m) @ (old @ new) @ [frag]"
proof -
  let ?ls = "old @ new"
  let ?m0 = "call_callback fs0 p m"
  let ?mt = "timer_events fss ?m0"
  have nl: "\<forall>l\<in>set ?ls. newline \<notin> set l" by (rule assms(1))
  have f0: "fs0 p = Some (terminated ?ls @ frag)" and f1: "fs1 p = Some (terminated ?ls @ frag)"
    and f2: "fs2 p = Some (terminated ?ls @ frag)"
    and fss: "\<forall>fs\<in>set fss. fs p = Some (terminated ?ls @ frag)"
    using assms(4) by simp_all
  have f0': "fs0 p = Some (terminated old @ terminated new @ frag)" using f0 by simp
  have "?m0 =
         m\<lparr>read_position := (read_position m)(p \<mapsto>
              if frag \<noteq> [] then - 1 else int (length (terminated old) + length (terminated new))),
           delivered := (if callback_present m
              then delivered m @ new @ (if frag = [] then [] else [frag]) else delivered m)\<rparr>"
    using f0' assms(7) by (rule call_callback_from) (use assms(1,2,3) in simp_all)
  then have m0: "?m0 = m\<lparr>read_position := (read_position m)(p \<mapsto> - 1),
           delivered := delivered m @ new @ [frag]\<rparr>"
    using assms(3,6) by simp
  have rp0: "read_position ?m0 p = Some (- 1)" by (simp add: m0)
  have cb0: "callback_present ?m0" using assms(6) by (simp add: call_callback_frame)
  have a: "delivered ?m0 = delivered m @ new @ [frag]" by (simp add: m0)
  have b: "read_position ?mt p = Some (- 1) \<or> read_position ?mt p = Some 0"
    using assms(3) nl assms(2) fss cb0 by (rule timer_events_offset) (simp add: rp0)
  have "0 < length frag" using assms(3) by simp
  then have "0 < length (terminated ?ls @ frag)"
    unfolding length_append by linarith
  then have "int (length (terminated ?ls @ frag)) \<noteq> - 1 \<and> int (length (terminated ?ls @ frag)) \<noteq> 0"
    by linarith
  with b have c: "read_position ?mt p \<noteq> Some (int (length (terminated ?ls @ frag)))"
    by auto
  have cbt: "callback_present ?mt" using cb0 by (simp add: timer_events_frame)
  have inft: "p \<in> set (files ?mt)"
    using assms(5) by (simp add: timer_events_frame call_callback_frame)
  have d: "\<exists>pre post. delivered (timer_event fs2 (timer_event fs1 ?mt)) =
            delivered ?mt @ pre @ ?ls @ [frag] @ post"
    using f1 f2 assms(3) nl assms(2) cbt inft b by (rule two_ticks_deliver_again)
  let ?m1 = "timer_event_file fs1 p ?m0"
  have m1: "?m1 = ?m0\<lparr>read_position := (read_position ?m0)(p \<mapsto> 0), delivered := delivered ?m0\<rparr>"
    using f1 rp0 by (rule timer_event_file_after_failed_tellg)
  have rp1: "read_position ?m1 p = Some 0" by (subst m1) simp
  have del1: "delivered ?m1 = delivered ?m0" by (subst m1) simp
  have cb1: "callback_present ?m1" using cb0 by (simp add: timer_event_file_frame)
  have m2: "timer_event_file fs2 p ?m1 =
         ?m1\<lparr>read_position := (read_position ?m1)(p \<mapsto> - 1),
           delivered := delivered ?m1 @ ?ls @ [frag]\<rparr>"
    using f2 assms(3) nl assms(2) rp1 cb1 by (rule timer_event_file_from_start)
  have rp2: "read_position (timer_event_file fs2 p ?m1) p = Some (- 1)" by (subst m2) simp
  have del2: "delivered (timer_event_file fs2 p ?m1) = delivered ?m0 @ ?ls @ [frag]"
    by (subst m2) (simp add: del1)
  from rp0 a b c d rp1 del1 rp2 del2 show ?thesis by blast
qed

theorem unterminated_fragment_is_read_again_and_again_witness:
  "list_all (\<lambda>fs. fs ''app.txt'' = Some (terminated ([] @ [''A'', ''B'']) @ ''C''))
     [fragment_file, fragment_file, fragment_file, fragment_file] \<and>
   ''app.txt'' \<in> set (files app_monitor) \<and> callback_present app_monitor \<and>
   read_position app_monitor ''app.txt'' = Some (int (length (terminated []))) \<and>
   read_position (call_callback fragment_file ''app.txt'' app_monitor) ''app.txt'' = Some (- 1) \<and>
   delivered (call_callback fragment_file ''app.txt'' app_monitor) = [''A'', ''B'', ''C''] \<and>
   read_position (timer_event_file fragment_file ''app.txt''
      (call_callback fragment_file ''app.txt'' app_monitor)) ''app.txt'' = Some 0 \<and>
   read_position (timer_event_file fragment_file ''app.txt''
      (timer_event_file fragment_file ''app.txt''
         (call_callback fragment_file ''app.txt'' app_monitor))) ''app.txt'' = Some (- 1) \<and>
   delivered (timer_event_file fragment_file ''app.txt''
      (timer_event_file fragment_file ''app.txt''
         (call_callback fragment_file ''app.txt'' app_monitor))) =
     [''A'', ''B'', ''C'', ''A'', ''B'', ''C''] \<and>
   read_position (timer_events [fragment_file]
      (call_callback fragment_file ''app.txt'' app_monitor)) ''app.txt'' \<noteq> Some 5 \<and>
   (\<exists>pre post.
      delivered (timer_event fragment_file (timer_event fragment_file
         (timer_events [fragment_file] (call_callback fragment_file ''app.txt'' app_monitor)))) =
      delivered (timer_events [fragment_file] (call_callback fragment_file ''app.txt'' app_monitor)) @
        pre @ [''A'', ''B'', ''C''] @ post)"
proof -
  have h1: "\<forall>l\<in>set ([] @ [''A'', ''B'']). newline \<notin> set l" by (simp add: newline_def)
  have h2: "newline \<notin> set ''C''" by (simp add: newline_def)
  have h3: "''C'' \<noteq> []" by simp
  have h4: "\<forall>fs\<in>set (fragment_file # fragment_file # fragment_file # [fragment_file]).
      fs ''app.txt'' = Some (terminated ([] @ [''A'', ''B'']) @ ''C'')"
    by (simp add: fragment_file_def one_file_def)
  have h5: "''app.txt'' \<in> set (files app_monitor)" by (simp add: app_monitor_state)
  have h6: "callback_present app_monitor" by (simp add: app_monitor_state)
  have h7: "read_position app_monitor ''app.txt'' = Some (int (length (terminated [])))"
    by (simp add: app_monitor_state)
  have d0: "delivered app_monitor = []" by (simp add: app_monitor_state)
  have sz: "int (length (terminated ([] @ [''A'', ''B'']) @ ''C'')) = 5" by simp
  note t = unterminated_fragment_is_read_again_and_again[OF h1 h2 h3 h4 h5 h6 h7]
  from t h4 h5 h6 h7 show ?thesis
    unfolding sz d0 by (simp add: list_all_iff)
qed

subsection \<open>A line without a key in a file that ends in a fragment\<close>

text \<open>
  Claim C8 does not hold of the code. The file \<open>app.txt\<close> holds the complete line
  \<open>x\<close>, for which the extractor finds no key, and then the unterminated fragment
  \<open>frag\<close>. The constructor's scan keeps \<open>x\<close> out of the buffer, as the claim says,
  but the offset it records for the file is not past \<open>x\<close> (position \<open>2\<close>): it is
  \<open>-1\<close>, the result of the \<^verbatim>\<open>tellg\<close> after the fragment, which overwrites the
  position taken after \<open>x\<close>. With the file unchanged, the first tick then fails to
  seek and the second reads from the start, so the callback receives the line \<open>x\<close>
  that the scan had already passed.
\<close>

theorem keyless_line_before_fragment_scan:
  "keyless_fragment_file ''app.txt'' = Some (terminated [''x''] @ ''frag'') \<and>
   no_key ''x'' = None \<and>
   get_initial_lines (log_monitor_new no_key keyless_fragment_file [''app''] True) = [] \<and>
   read_position (log_monitor_new no_key keyless_fragment_file [''app''] True) ''app.txt'' =
     Some (- 1) \<and>
   int (length (terminated [''x''])) = 2 \<and>
   delivered (timer_event keyless_fragment_file (timer_event keyless_fragment_file
      (log_monitor_new no_key keyless_fragment_file [''app''] True))) = [''x'', ''frag'']"
proof -
  let ?fs = "keyless_fragment_file"
  let ?init = "\<lparr>callback_present = True, initial_lines = [], read_position = Map.empty,
      files = [], delivered = []\<rparr>"
  let ?sa = "add_initial_lines no_key ?fs ''app.1.txt'' ?init"
  let ?sb = "add_initial_lines no_key ?fs ''app.txt'' ?sa"
  let ?m = "log_monitor_new no_key ?fs [''app''] True"
  have fs: "?fs ''app.txt'' = Some (terminated [''x''] @ ''frag'')"
    by (simp add: keyless_fragment_file_def one_file_def)
  have nl: "\<forall>l\<in>set [''x'']. newline \<notin> set l" "newline \<notin> set ''frag''"
    by (simp_all add: newline_def)
  have "?fs ''app.1.txt'' = None" by (simp add: keyless_fragment_file_def one_file_def)
  then have "?sa = ?init\<lparr>initial_lines := initial_lines ?init,
      read_position := (read_position ?init)(''app.1.txt'' \<mapsto> 0)\<rparr>"
    by (rule add_initial_lines_missing)
  then have sa: "?sa = \<lparr>callback_present = True, initial_lines = [],
      read_position = [''app.1.txt'' \<mapsto> 0], files = [], delivered = []\<rparr>"
    by simp
  have "?sb = ?sa\<lparr>initial_lines := foldl (scan_line no_key) (initial_lines ?sa)
          ([''x''] @ (if ''frag'' = [] then [] else [''frag''])),
        read_position := (read_position ?sa)(''app.txt'' \<mapsto>
          if ''frag'' \<noteq> [] then - 1 else int (length (terminated [''x''])))\<rparr>"
    using fs nl by (rule add_initial_lines_complete)
  then have sb: "?sb = \<lparr>callback_present = True, initial_lines = [],
      read_position = [''app.1.txt'' \<mapsto> 0, ''app.txt'' \<mapsto> - 1], files = [], delivered = []\<rparr>"
    by (simp add: sa scan_line_no_key no_key_def)
  have m: "?m = \<lparr>callback_present = True, initial_lines = [],
      read_position = [''app.1.txt'' \<mapsto> 0, ''app.txt'' \<mapsto> - 1],
      files = [''app.txt''], delivered = []\<rparr>"
    by (simp add: log_monitor_new_def log_monitor_target_def sa sb[unfolded sa])
  have rp: "read_position ?m ''app.txt'' = Some (- 1)" by (simp add: m)
  let ?ta = "timer_event_file ?fs ''app.txt'' ?m"
  have "?ta = ?m\<lparr>read_position := (read_position ?m)(''app.txt'' \<mapsto> 0),
      delivered := delivered ?m\<rparr>"
    using fs rp by (rule timer_event_file_after_failed_tellg)
  then have ta: "?ta = \<lparr>callback_present = True, initial_lines = [],
      read_position = [''app.1.txt'' \<mapsto> 0, ''app.txt'' \<mapsto> 0],
      files = [''app.txt''], delivered = []\<rparr>"
    by (simp add: m)
  have e1: "timer_event ?fs ?m = ?ta"
    by (simp add: timer_event_def m)
  have f: "''frag'' \<noteq> []" by simp
  have rp1: "read_position ?ta ''app.txt'' = Some 0" by (simp add: ta)
  have cb1: "callback_present ?ta" by (simp add: ta)
  have "timer_event_file ?fs ''app.txt'' ?ta =
      ?ta\<lparr>read_position := (read_position ?ta)(''app.txt'' \<mapsto> - 1),
         delivered := delivered ?ta @ [''x''] @ [''frag'']\<rparr>"
    using fs f nl rp1 cb1 by (rule timer_event_file_from_start)
  then have tb: "delivered (timer_event_file ?fs ''app.txt'' ?ta) = [''x'', ''frag'']"
    by (simp add: ta)
  have "timer_event ?fs ?ta = timer_event_file ?fs ''app.txt'' ?ta"
    by (simp add: timer_event_def ta)
  with tb have "delivered (timer_event ?fs (timer_event ?fs ?m)) = [''x'', ''frag'']"
    by (simp add: e1)
  moreover have "get_initial_lines ?m = []" by (simp add: get_initial_lines_def m)
  ultimately show ?thesis
    using rp fs by (simp add: no_key_def)
qed

end
